theory Spec2Isabelle
  imports Main "HOL-Library.Word" "HOL-Library.List_Lexorder" "HOL-Library.Sublist"
begin

section \<open>Byte strings\<close>

text \<open>
  Keys and values are Go byte slices. The two functions of Go's package \<open>bytes\<close> that
  \<open>store/badger/badger.go\<close> and the engine's cursor use are written out:
  \<open>bytes.Compare\<close> (lexicographic on unsigned bytes, result -1, 0 or 1) and
  \<open>bytes.HasPrefix\<close>.
\<close>

type_synonym byte = "8 word"
type_synonym bytes = "byte list"

fun bytes_Compare :: "bytes \<Rightarrow> bytes \<Rightarrow> int" where
  "bytes_Compare [] [] = 0"
| "bytes_Compare [] (y # ys) = - 1"
| "bytes_Compare (x # xs) [] = 1"
| "bytes_Compare (x # xs) (y # ys) =
     (if x < y then - 1 else if y < x then 1 else bytes_Compare xs ys)"

definition HasPrefix :: "bytes \<Rightarrow> bytes \<Rightarrow> bool" where
  "HasPrefix s p = (length p \<le> length s \<and> take (length p) s = p)"

section \<open>Errors\<close>

text \<open>
  Go errors are compared by identity; each origin of an error is a constructor.
  \<open>badger_error\<close> are the errors of the storage engine: the two sentinels the store
  tests for, and any other failure with its message. \<open>context_error\<close> is what
  \<open>ctx.Err()\<close> returns. \<open>error\<close> is what the store hands to its caller:
  an engine error passed through, \<open>store.ErrNotFound\<close> (the sentinel of the store
  package), a context error, a failure of the compressor, or the wrapping
  \<open>fmt.Errorf("after txn too big: %w", err)\<close>.
\<close>

datatype badger_error = ErrTxnTooBig | ErrKeyNotFound | ErrEngine string

datatype context_error = Canceled | DeadlineExceeded

datatype error =
    Badger badger_error
  | ErrNotFound
  | Ctx context_error
  | ErrCodec string
  | AfterTxnTooBig badger_error

section \<open>The store package: compressor, KV pairs, iterator\<close>

text \<open>
  Modelled from the spec: the interface \<open>store.Compressor\<close> is not among the sources.
  \<open>badger.go\<close> calls \<open>Compress(value)\<close>, which returns bytes, and
  \<open>Decompress(value)\<close>, which returns bytes or an error. The contract
  \<open>Decompress(Compress(v)) == v\<close> of the spec is the predicate \<open>round_trips\<close>.
\<close>

record Compressor =
  Compress :: "bytes \<Rightarrow> bytes"
  Decompress :: "bytes \<Rightarrow> string + bytes"

definition round_trips :: "Compressor \<Rightarrow> bool" where
  "round_trips c = (\<forall>v. Decompress c (Compress c v) = Inr v)"

text \<open>
  Modelled from the spec: two codecs for concrete runs. \<open>none_compressor\<close> is the codec
  named "none"; \<open>tag_compressor\<close> stands for a real codec: it puts a marker byte in
  front of the value and fails on input that lacks it.
\<close>

definition none_compressor :: Compressor where
  "none_compressor = \<lparr> Compress = (\<lambda>v. v), Decompress = (\<lambda>b. Inr b) \<rparr>"

definition tag_compressor :: Compressor where
  "tag_compressor =
     \<lparr> Compress = (\<lambda>v. 1 # v),
       Decompress = (\<lambda>b. case b of [] \<Rightarrow> Inl ''short input''
                          | t # v \<Rightarrow> if t = 1 then Inr v else Inl ''bad marker'') \<rparr>"

text \<open>
  Modelled from the spec: \<open>store.KV\<close> is not among the sources; it is the pair of a
  key and a value that \<open>&store.KV{key, value}\<close> builds.
\<close>

record KV =
  Key :: bytes
  Value :: bytes

text \<open>
  Modelled from the spec: \<open>store.Iterator\<close> (\<open>NewIterator\<close>, \<open>Context\<close>,
  \<open>PushItem\<close>, \<open>PushError\<close>, \<open>PushFinished\<close>) is not among the sources. The
  producer pushes items one at a time and then a terminal event; the consumer sees them
  in the order pushed. The iterator is the sequence of events pushed so far, together
  with the caller's cancellation token. The token is triggered from outside, at any
  moment; what the producer can see of it is the answer of \<open>Err()\<close> at each of its
  checks, so the token is the function from the number of items pushed so far to that
  answer.
\<close>

datatype event = PushedItem KV | PushedError error | PushedFinished

type_synonym Context = "nat \<Rightarrow> context_error option"

record Iterator =
  ctx :: Context
  pushed :: "event list"

definition NewIterator :: "Context \<Rightarrow> Iterator" where
  "NewIterator c = \<lparr> ctx = c, pushed = [] \<rparr>"

definition Context_Err :: "Iterator \<Rightarrow> context_error option" where
  "Context_Err it = ctx it (length (pushed it))"

definition PushItem :: "Iterator \<Rightarrow> KV \<Rightarrow> Iterator" where
  "PushItem it kv = it \<lparr> pushed := pushed it @ [PushedItem kv] \<rparr>"

definition PushError :: "Iterator \<Rightarrow> error \<Rightarrow> Iterator" where
  "PushError it err = it \<lparr> pushed := pushed it @ [PushedError err] \<rparr>"

definition PushFinished :: "Iterator \<Rightarrow> Iterator" where
  "PushFinished it = it \<lparr> pushed := pushed it @ [PushedFinished] \<rparr>"

fun is_terminal :: "event \<Rightarrow> bool" where
  "is_terminal (PushedItem kv) = False"
| "is_terminal (PushedError err) = True"
| "is_terminal PushedFinished = True"

fun is_item :: "event \<Rightarrow> bool" where
  "is_item (PushedItem kv) = True"
| "is_item (PushedError err) = False"
| "is_item PushedFinished = False"

section \<open>The storage engine\<close>

text \<open>
  The engine (\<open>github.com/dgraph-io/badger/v2\<close>) is an external library. It is an
  ordered table of entries, the latest value of each key, kept in ascending key order
  (the order of \<open>bytes.Compare\<close>), and a write batch is the list of entries staged in
  it and not yet committed. When the engine refuses a call is not decided by the store,
  so the refusals are parameters: \<open>stage_fault\<close> is the verdict of
  \<open>WriteBatch.SetEntry\<close> on the entries staged so far and a new entry
  (\<open>ErrTxnTooBig\<close> is the capacity verdict), \<open>flush_fault\<close> that of
  \<open>WriteBatch.Flush\<close>, \<open>get_fault\<close> a failure of \<open>Txn.Get\<close> other than the
  absence of the key, and \<open>value_fault\<close> a failure of \<open>Item.ValueCopy\<close>.
\<close>

type_synonym Entry = "bytes \<times> bytes"

type_synonym WriteBatch = "Entry list"

record engine =
  stage_fault :: "Entry list \<Rightarrow> Entry \<Rightarrow> badger_error option"
  flush_fault :: "Entry list \<Rightarrow> badger_error option"
  get_fault :: "bytes \<Rightarrow> badger_error option"
  value_fault :: "bytes \<Rightarrow> badger_error option"

record DB =
  eng :: engine
  table :: "Entry list"

fun table_set :: "Entry list \<Rightarrow> Entry \<Rightarrow> Entry list" where
  "table_set [] e = [e]"
| "table_set (x # t) e =
     (if bytes_Compare (fst e) (fst x) = - 1 then e # x # t
      else if bytes_Compare (fst e) (fst x) = 0 then e # t
      else x # table_set t e)"

definition NewWriteBatch :: "DB \<Rightarrow> WriteBatch" where
  "NewWriteBatch d = []"

definition SetEntry :: "DB \<Rightarrow> WriteBatch \<Rightarrow> Entry \<Rightarrow> badger_error option \<times> WriteBatch" where
  "SetEntry d wb e =
     (case stage_fault (eng d) wb e of
        Some err \<Rightarrow> (Some err, wb)
      | None \<Rightarrow> (None, wb @ [e]))"

definition Flush :: "DB \<Rightarrow> WriteBatch \<Rightarrow> badger_error option \<times> DB" where
  "Flush d wb =
     (case flush_fault (eng d) wb of
        Some err \<Rightarrow> (Some err, d)
      | None \<Rightarrow> (None, d \<lparr> table := foldl table_set (table d) wb \<rparr>))"

definition txn_Get :: "DB \<Rightarrow> bytes \<Rightarrow> badger_error + Entry" where
  "txn_Get d key =
     (case get_fault (eng d) key of
        Some err \<Rightarrow> Inl err
      | None \<Rightarrow> (case map_of (table d) key of
                   None \<Rightarrow> Inl ErrKeyNotFound
                 | Some v \<Rightarrow> Inr (key, v)))"

definition ValueCopy :: "DB \<Rightarrow> Entry \<Rightarrow> badger_error + bytes" where
  "ValueCopy d item =
     (case value_fault (eng d) (fst item) of
        Some err \<Rightarrow> Inl err
      | None \<Rightarrow> Inr (snd item))"

definition KeyCopy :: "Entry \<Rightarrow> bytes" where
  "KeyCopy item = fst item"

text \<open>
  The cursor of a read-only view: \<open>Seek key\<close> stands on the first entry whose key is
  not below \<open>key\<close>; the cursor is the list of entries from there on, \<open>Valid\<close> when it
  is not empty, and \<open>Next\<close> drops its head.
\<close>

definition Seek :: "DB \<Rightarrow> bytes \<Rightarrow> Entry list" where
  "Seek d key = dropWhile (\<lambda>x. bytes_Compare (fst x) key = - 1) (table d)"

section \<open>The embedded backend (store/badger/badger.go)\<close>

record Store =
  db :: DB
  writeBatch :: "WriteBatch option"
  compressor :: Compressor

definition Put :: "Store \<Rightarrow> bytes \<Rightarrow> bytes \<Rightarrow> error option \<times> Store" where
  "Put s key val =
     (let wb0 = (case writeBatch s of None \<Rightarrow> NewWriteBatch (db s) | Some wb \<Rightarrow> wb);
          val' = Compress (compressor s) val;
          (err, wb1) = SetEntry (db s) wb0 (key, val')
      in if err = Some ErrTxnTooBig then
           (case Flush (db s) wb1 of
              (Some ferr, d) \<Rightarrow> (Some (Badger ferr), s \<lparr> writeBatch := Some wb1 \<rparr>)
            | (None, d) \<Rightarrow>
                (case SetEntry d (NewWriteBatch d) (key, val') of
                   (Some err2, wb2) \<Rightarrow>
                     (Some (AfterTxnTooBig err2), s \<lparr> db := d, writeBatch := Some wb2 \<rparr>)
                 | (None, wb2) \<Rightarrow> (None, s \<lparr> db := d, writeBatch := Some wb2 \<rparr>)))
         else (None, s \<lparr> writeBatch := Some wb1 \<rparr>))"

definition FlushPuts :: "Store \<Rightarrow> error option \<times> Store" where
  "FlushPuts s =
     (case writeBatch s of
        None \<Rightarrow> (None, s)
      | Some wb \<Rightarrow>
          (case Flush (db s) wb of
             (Some err, d) \<Rightarrow> (Some (Badger err), s)
           | (None, d) \<Rightarrow> (None, s \<lparr> db := d, writeBatch := Some (NewWriteBatch d) \<rparr>)))"

definition Get :: "Store \<Rightarrow> bytes \<Rightarrow> error + bytes" where
  "Get s key =
     (case txn_Get (db s) key of
        Inl err \<Rightarrow> (if err = ErrKeyNotFound then Inl ErrNotFound else Inl (Badger err))
      | Inr item \<Rightarrow>
          (case ValueCopy (db s) item of
             Inl err \<Rightarrow> Inl (Badger err)
           | Inr val \<Rightarrow>
               (case Decompress (compressor s) val of
                  Inl msg \<Rightarrow> Inl (ErrCodec msg)
                | Inr val' \<Rightarrow> Inr val')))"

text \<open>
  The three multi-result operations start a goroutine that fills the iterator while the
  caller drains it. The model is the producer run to its end, with a consumer that keeps
  draining (a push never blocks for good): the function returns the iterator with
  everything the goroutine pushes, in order. The body of each \<open>db.View\<close>
  closure is a loop; it returns the closure's error and the iterator. \<open>finish\<close> is
  the code after \<open>db.View\<close>: \<open>PushError\<close> and return if the closure failed,
  \<open>PushFinished\<close> otherwise.

  The loop of \<open>BatchGet\<close> carries one thing the store does not keep: \<open>seen\<close>, the
  keys it has handed to \<open>txn.Get\<close> so far. It has no part in what is pushed or
  returned; it is there to state which keys a run looks up.

  \<open>count\<close> and \<open>limit\<close> are Go \<open>int\<close>s (64 bits). \<open>count\<close> goes up by one per
  entry visited, so it stays below the number of entries of the table and never wraps;
  both are \<open>int\<close> here.
\<close>

fun BatchGet_loop ::
  "Store \<Rightarrow> bytes list \<Rightarrow> Iterator \<times> bytes list \<Rightarrow> error option \<times> Iterator \<times> bytes list" where
  "BatchGet_loop s [] (kr, seen) = (None, kr, seen)"
| "BatchGet_loop s (key # keys) (kr, seen) =
     (case txn_Get (db s) key of
        Inl err \<Rightarrow> (Some (Badger err), kr, seen @ [key])
      | Inr item \<Rightarrow>
          (case ValueCopy (db s) item of
             Inl err \<Rightarrow> (Some (Badger err), kr, seen @ [key])
           | Inr val \<Rightarrow>
               (case Decompress (compressor s) val of
                  Inl msg \<Rightarrow> (Some (ErrCodec msg), kr, seen @ [key])
                | Inr val' \<Rightarrow>
                    BatchGet_loop s keys
                      (PushItem kr \<lparr> Key = KeyCopy item, Value = val' \<rparr>, seen @ [key]))))"

definition finish :: "error option \<times> Iterator \<Rightarrow> Iterator" where
  "finish r = (case fst r of Some err \<Rightarrow> PushError (snd r) err | None \<Rightarrow> PushFinished (snd r))"

definition BatchGet_view :: "Store \<Rightarrow> Context \<Rightarrow> bytes list \<Rightarrow> error option \<times> Iterator \<times> bytes list" where
  "BatchGet_view s c keys = BatchGet_loop s keys (NewIterator c, [])"

definition BatchGet :: "Store \<Rightarrow> Context \<Rightarrow> bytes list \<Rightarrow> Iterator" where
  "BatchGet s c keys =
     (let (err, kr, seen) = BatchGet_view s c keys in finish (err, kr))"

fun Scan_loop ::
  "Store \<Rightarrow> bytes \<Rightarrow> int \<Rightarrow> Entry list \<Rightarrow> int \<Rightarrow> Iterator \<Rightarrow> error option \<times> Iterator" where
  "Scan_loop s exclusiveEnd limit [] count sit = (None, sit)"
| "Scan_loop s exclusiveEnd limit (item # cur) count sit =
     (if bytes_Compare (fst item) exclusiveEnd \<noteq> - 1 then (None, sit)
      else
        (case Context_Err sit of
           Some err \<Rightarrow> (Some (Ctx err), sit)
         | None \<Rightarrow>
             (case ValueCopy (db s) item of
                Inl err \<Rightarrow> (Some (Badger err), sit)
              | Inr val \<Rightarrow>
                  (case Decompress (compressor s) val of
                     Inl msg \<Rightarrow> (Some (ErrCodec msg), sit)
                   | Inr val' \<Rightarrow>
                       (let sit' = PushItem sit \<lparr> Key = KeyCopy item, Value = val' \<rparr>
                        in if count + 1 = limit \<and> limit > 0 then (None, sit')
                           else Scan_loop s exclusiveEnd limit cur (count + 1) sit')))))"

definition Scan :: "Store \<Rightarrow> Context \<Rightarrow> bytes \<Rightarrow> bytes \<Rightarrow> int \<Rightarrow> Iterator" where
  "Scan s c start exclusiveEnd limit =
     finish (Scan_loop s exclusiveEnd limit (Seek (db s) start) 0 (NewIterator c))"

fun Prefix_loop ::
  "Store \<Rightarrow> bytes \<Rightarrow> Entry list \<Rightarrow> int \<Rightarrow> Iterator \<Rightarrow> error option \<times> Iterator" where
  "Prefix_loop s pfx [] count kr = (None, kr)"
| "Prefix_loop s pfx (item # cur) count kr =
     (if \<not> HasPrefix (fst item) pfx then (None, kr)
      else
        (case Context_Err kr of
           Some err \<Rightarrow> (Some (Ctx err), kr)
         | None \<Rightarrow>
             (case ValueCopy (db s) item of
                Inl err \<Rightarrow> (Some (Badger err), kr)
              | Inr val \<Rightarrow>
                  (case Decompress (compressor s) val of
                     Inl msg \<Rightarrow> (Some (ErrCodec msg), kr)
                   | Inr val' \<Rightarrow>
                       Prefix_loop s pfx cur (count + 1)
                         (PushItem kr \<lparr> Key = KeyCopy item, Value = val' \<rparr>)))))"

definition Prefix :: "Store \<Rightarrow> Context \<Rightarrow> bytes \<Rightarrow> Iterator" where
  "Prefix s c pfx = finish (Prefix_loop s pfx (Seek (db s) pfx) 0 (NewIterator c))"

section \<open>Stating what is stored and what is yielded\<close>

text \<open>
  \<open>stored c (k, v)\<close> is the entry the engine holds for a pair written by the caller:
  the key as given and the value compressed. \<open>KV_of\<close> is the KV pair an iterator
  delivers for a pair. \<open>batch_of\<close> is the batch \<open>Put\<close> stages into (a new, empty
  one when the store has none yet), and \<open>flushed d wb\<close> the database after the batch
  \<open>wb\<close> is committed. \<open>read_key\<close> is one round of the loop of \<open>BatchGet\<close>: the
  lookup, the copy of the value and its decompression.
\<close>

definition KV_of :: "Entry \<Rightarrow> KV" where
  "KV_of e = \<lparr> Key = fst e, Value = snd e \<rparr>"

definition stored :: "Compressor \<Rightarrow> Entry \<Rightarrow> Entry" where
  "stored c e = (fst e, Compress c (snd e))"

definition batch_of :: "Store \<Rightarrow> WriteBatch" where
  "batch_of s = (case writeBatch s of None \<Rightarrow> [] | Some wb \<Rightarrow> wb)"

definition flushed :: "DB \<Rightarrow> WriteBatch \<Rightarrow> DB" where
  "flushed d wb = d \<lparr> table := foldl table_set (table d) wb \<rparr>"

definition read_key :: "Store \<Rightarrow> bytes \<Rightarrow> error + KV" where
  "read_key s key =
     (case txn_Get (db s) key of
        Inl err \<Rightarrow> Inl (Badger err)
      | Inr item \<Rightarrow>
          (case ValueCopy (db s) item of
             Inl err \<Rightarrow> Inl (Badger err)
           | Inr val \<Rightarrow>
               (case Decompress (compressor s) val of
                  Inl msg \<Rightarrow> Inl (ErrCodec msg)
                | Inr val' \<Rightarrow> Inr \<lparr> Key = KeyCopy item, Value = val' \<rparr>)))"


definition well_formed :: "Store \<Rightarrow> bool" where
  "well_formed s =
     (sorted_wrt (<) (map fst (table (db s)))
      \<and> snd ` set (table (db s)) \<subseteq> range (Compress (compressor s))
      \<and> snd ` set (batch_of s) \<subseteq> range (Compress (compressor s)))"

text \<open>
  The upper bound of a prefix's key range, in the words of the spec: "the smallest key
  strictly greater than every key sharing the prefix". The store never builds it
  (\<open>Prefix\<close> asks the cursor for \<open>ValidForPrefix\<close>); it is defined here to compare
  \<open>Prefix\<close> with \<open>Scan\<close>. It is the prefix with its last byte below 255 raised by
  one and the bytes after it cut off; a prefix with no such byte (empty, or all 255) has
  no bound.
\<close>

fun prefix_incremented :: "bytes \<Rightarrow> bytes option" where
  "prefix_incremented [] = None"
| "prefix_incremented (b # bs) =
     (case prefix_incremented bs of
        Some bs' \<Rightarrow> Some (b # bs')
      | None \<Rightarrow> if b = 255 then None else Some [b + 1])"

section \<open>Concrete engines and stores\<close>

text \<open>
  An engine for concrete runs. It refuses an empty key and a key longer than
  \<open>maxKey\<close> bytes, answers \<open>ErrTxnTooBig\<close> when the bytes staged in the batch
  together with the new entry reach \<open>maxBatch\<close>, and never fails otherwise.
  \<open>fresh_store\<close> is the store \<open>NewStore\<close> returns on an empty database,
  \<open>Put_all\<close> a caller that puts a list of pairs one after the other, and
  \<open>written\<close> that caller followed by \<open>FlushPuts\<close>.
\<close>

definition entry_size :: "Entry \<Rightarrow> nat" where
  "entry_size e = length (fst e) + length (snd e)"

definition bounded_engine :: "nat \<Rightarrow> nat \<Rightarrow> engine" where
  "bounded_engine maxKey maxBatch =
     \<lparr> stage_fault = (\<lambda>wb e.
         if fst e = [] then Some (ErrEngine ''Key cannot be empty'')
         else if maxKey < length (fst e) then Some (ErrEngine ''Key exceeded size limit'')
         else if maxBatch \<le> sum_list (map entry_size wb) + entry_size e then Some ErrTxnTooBig
         else None),
       flush_fault = (\<lambda>wb. None),
       get_fault = (\<lambda>k. if k = [] then Some (ErrEngine ''Key cannot be empty'') else None),
       value_fault = (\<lambda>k. None) \<rparr>"

definition fresh_store :: "engine \<Rightarrow> Compressor \<Rightarrow> Store" where
  "fresh_store e c = \<lparr> db = \<lparr> eng = e, table = [] \<rparr>, writeBatch = None, compressor = c \<rparr>"

fun Put_all :: "Store \<Rightarrow> Entry list \<Rightarrow> Store" where
  "Put_all s [] = s"
| "Put_all s (e # es) = Put_all (snd (Put s (fst e) (snd e))) es"

definition written :: "Store \<Rightarrow> Entry list \<Rightarrow> Store" where
  "written s es = snd (FlushPuts (Put_all s es))"

text \<open>
  The stores of the concrete runs: keys a, b, c, d; keys ab, ac, b; the first of these
  on an engine that fails to read the value of key c; an empty store whose engine takes
  keys of at most 4 bytes; two stores with one staged write, on engines whose batch
  holds fewer than 4 and fewer than 8 bytes; and the first of these two on an engine
  whose flush fails.
\<close>

definition abcd_store :: Store where
  "abcd_store = written (fresh_store (bounded_engine 8 64) tag_compressor)
     [([99], [3]), ([97], [1]), ([100], [4]), ([98], [2])]"

definition ab_store :: Store where
  "ab_store = written (fresh_store (bounded_engine 8 64) tag_compressor)
     [([98], [7]), ([97, 99], [6]), ([97, 98], [5])]"

definition flaky_store :: Store where
  "flaky_store = abcd_store \<lparr> db := (db abcd_store) \<lparr> eng := (bounded_engine 8 64)
     \<lparr> value_fault := (\<lambda>k. if k = [99] then Some (ErrEngine ''read error'') else None) \<rparr> \<rparr> \<rparr>"

definition small_key_store :: Store where
  "small_key_store = fresh_store (bounded_engine 4 64) tag_compressor"




section \<open>Order on byte strings and the engine's table\<close>

text \<open>
  \<open><\<close> on byte strings is the lexicographic order over the unsigned order of bytes;
  \<open>bytes.Compare\<close> decides it, and \<open>bytes.HasPrefix\<close> is the prefix relation.
\<close>

lemma bytes_Compare_cases: "bytes_Compare a b = - 1 \<or> bytes_Compare a b = 0 \<or> bytes_Compare a b = 1"
  by (induction a b rule: bytes_Compare.induct) auto

lemma bytes_Compare_less: "bytes_Compare a b = - 1 \<longleftrightarrow> a < b"
  by (induction a b rule: bytes_Compare.induct) auto

lemma bytes_Compare_eq: "bytes_Compare a b = 0 \<longleftrightarrow> a = b"
  by (induction a b rule: bytes_Compare.induct) auto

lemma bytes_Compare_greater: "bytes_Compare a b = 1 \<longleftrightarrow> b < a"
  by (induction a b rule: bytes_Compare.induct) auto

lemma HasPrefix_prefix: "HasPrefix s p \<longleftrightarrow> prefix p s"
  unfolding HasPrefix_def
  by (metis append_eq_conv_conj prefix_def prefix_length_le take_all_iff append_take_drop_id)

text \<open>
  Committing an entry keeps the table in ascending key order and sets the value of its
  key; the keys and values of the table come from the entries committed.
\<close>

lemma map_of_table_set: "map_of (table_set t e) = (map_of t)(fst e \<mapsto> snd e)"
  by (induction t) (auto simp: fun_eq_iff bytes_Compare_eq)

lemma set_table_set: "fst ` set (table_set t e) = insert (fst e) (fst ` set t)"
  by (induction t) (auto simp: bytes_Compare_eq)

lemma sorted_table_set:
  "sorted_wrt (<) (map fst t) \<Longrightarrow> sorted_wrt (<) (map fst (table_set t e))"
proof (induction t)
  case Nil
  show ?case by simp
next
  case (Cons x t)
  have tl: "sorted_wrt (<) (map fst t)" and hd: "\<forall>k \<in> fst ` set t. fst x < k"
    using Cons.prems by auto
  show ?case
  proof (cases "bytes_Compare (fst e) (fst x) = - 1")
    case True
    then have "fst e < fst x" by (simp add: bytes_Compare_less)
    then show ?thesis using True Cons.prems by (auto intro: less_trans)
  next
    case nl: False
    show ?thesis
    proof (cases "bytes_Compare (fst e) (fst x) = 0")
      case True
      then have "fst e = fst x" by (simp add: bytes_Compare_eq)
      then show ?thesis using nl True Cons.prems by auto
    next
      case False
      then have "fst x < fst e"
        using nl bytes_Compare_cases [of "fst e" "fst x"] by (simp add: bytes_Compare_greater)
      moreover have "fst ` set (table_set t e) = insert (fst e) (fst ` set t)"
        by (rule set_table_set)
      ultimately have "\<forall>k \<in> fst ` set (table_set t e). fst x < k"
        using hd by auto
      then show ?thesis using nl False Cons.IH [OF tl] by auto
    qed
  qed
qed

lemma sorted_foldl_table_set:
  "sorted_wrt (<) (map fst t) \<Longrightarrow> sorted_wrt (<) (map fst (foldl table_set t wb))"
  by (induction wb arbitrary: t) (simp_all add: sorted_table_set)

lemma map_of_foldl_table_set_snoc:
  "map_of (foldl table_set t (wb @ [(k, v)])) k = Some v"
  by (simp add: map_of_table_set)

lemma set_foldl_table_set:
  "fst ` set (foldl table_set t wb) = fst ` set t \<union> fst ` set wb"
  by (induction wb arbitrary: t) (auto simp: set_table_set)

lemma values_table_set: "snd ` set (table_set t e) \<subseteq> insert (snd e) (snd ` set t)"
  by (induction t) auto

lemma values_foldl_table_set:
  "snd ` set (foldl table_set t wb) \<subseteq> snd ` set t \<union> snd ` set wb"
proof (induction wb arbitrary: t)
  case Nil
  show ?case by simp
next
  case (Cons e wb)
  have "snd ` set (foldl table_set (table_set t e) wb) \<subseteq> snd ` set (table_set t e) \<union> snd ` set wb"
    by (rule Cons.IH)
  then show ?case using values_table_set [of t e] by auto
qed

text \<open>
  On a table in ascending order the cursor's walk selects by a filter: \<open>Seek\<close> keeps
  the keys from the start key on, and walking while the key is below a bound keeps the
  keys below it.
\<close>

lemma dropWhile_sorted:
  "sorted_wrt (<) (map fst t) \<Longrightarrow>
   dropWhile (\<lambda>x. fst x < a) t = filter (\<lambda>x. a \<le> fst x) (t :: Entry list)"
proof (induction t)
  case Nil
  show ?case by simp
next
  case (Cons x t)
  show ?case
  proof (cases "fst x < a")
    case True
    then show ?thesis using Cons by auto
  next
    case False
    then have "\<forall>y \<in> set t. a \<le> fst y" using Cons.prems by fastforce
    then have "filter (\<lambda>x. a \<le> fst x) t = t" by (simp add: filter_id_conv)
    then show ?thesis using False by simp
  qed
qed

lemma takeWhile_sorted:
  "sorted_wrt (<) (map fst t) \<Longrightarrow>
   takeWhile (\<lambda>x. fst x < b) t = filter (\<lambda>x. fst x < b) (t :: Entry list)"
proof (induction t)
  case Nil
  show ?case by simp
next
  case (Cons x t)
  show ?case
  proof (cases "fst x < b")
    case True
    then show ?thesis using Cons by auto
  next
    case False
    then have "\<forall>y \<in> set t. \<not> fst y < b" using Cons.prems by fastforce
    then have "filter (\<lambda>x. fst x < b) t = []" by (simp add: filter_empty_conv)
    then show ?thesis using False by simp
  qed
qed

lemma Seek_sorted:
  "sorted_wrt (<) (map fst (table d)) \<Longrightarrow> Seek d key = filter (\<lambda>x. key \<le> fst x) (table d)"
  by (simp add: Seek_def bytes_Compare_less dropWhile_sorted)

lemma take_within_takeWhile:
  "m \<le> length (takeWhile P xs) \<Longrightarrow> take m (takeWhile P xs) = take m xs"
proof (induction xs arbitrary: m)
  case Nil
  show ?case by simp
next
  case (Cons x xs)
  show ?case
  proof (cases m)
    case 0
    then show ?thesis by simp
  next
    case (Suc m')
    then have "P x" using Cons.prems by (cases "P x") simp_all
    then show ?thesis using Suc Cons by simp
  qed
qed

subsection \<open>Keys that share a prefix\<close>

text \<open>
  The keys with a given prefix form an interval of the order that starts at the prefix:
  a key between the prefix and a key that has the prefix has it too. Where
  \<open>prefix_incremented\<close> is defined it is the least upper bound of that interval, and
  where it is not, every key from the prefix on has the prefix.
\<close>

lemma unat_byte_bound: "unat (c :: 8 word) < 256"
  using unsigned_less [of c, where ?'a = nat] by simp

lemma unat_byte_succ:
  assumes "b \<noteq> (255 :: 8 word)"
  shows "unat (b + 1) = unat b + 1"
proof -
  have "unat b \<noteq> unat (255 :: 8 word)"
    using assms by (simp only: word_unat_eq_iff [symmetric] not_False_eq_True)
  then have "unat b \<noteq> 255" by simp
  then have "unat b + unat (1 :: 8 word) < 2 ^ LENGTH(8)"
    using unat_byte_bound [of b] by simp
  then have "unat (b + 1) = unat b + unat (1 :: 8 word)"
    by (simp only: unat_add_lem)
  then show ?thesis by simp
qed

lemma byte_less_succ: "b \<noteq> 255 \<Longrightarrow> (c < b + 1) = (c \<le> (b::8 word))"
  by (auto simp add: word_less_nat_alt word_le_nat_alt unat_byte_succ)

lemma byte_less_succ_self: "b \<noteq> 255 \<Longrightarrow> b < b + (1::8 word)"
  by (simp add: word_less_nat_alt unat_byte_succ)

lemma byte_max: "\<not> (255 :: 8 word) < c"
  using unat_byte_bound [of c] by (simp add: word_less_nat_alt)

lemma prefix_le: "prefix p k \<Longrightarrow> p \<le> (k :: bytes)"
proof (induction p arbitrary: k)
  case Nil
  show ?case by simp
next
  case (Cons b bs)
  then obtain k' where k: "k = b # k'" and "prefix bs k'"
    by (cases k) auto
  then show ?case using Cons.IH by simp
qed

lemma prefix_convex:
  "p \<le> k \<Longrightarrow> k \<le> k' \<Longrightarrow> prefix p k' \<Longrightarrow> prefix p (k :: bytes)"
proof (induction p arbitrary: k k')
  case Nil
  show ?case by simp
next
  case (Cons b bs)
  from Cons.prems(3) obtain t' where k': "k' = b # t'" and pt: "prefix bs t'"
    by (cases k') auto
  from Cons.prems(1) obtain c t where k: "k = c # t"
    by (cases k) auto
  from Cons.prems(1,2) have "c = b" and "bs \<le> t" and "t \<le> t'"
    unfolding k k' by auto
  then show ?case using Cons.IH [OF _ _ pt] k by simp
qed

lemma all_ff_prefix:
  "prefix_incremented p = None \<Longrightarrow> p \<le> k \<Longrightarrow> prefix p k"
proof (induction p arbitrary: k)
  case Nil
  show ?case by simp
next
  case (Cons b bs)
  from Cons.prems(1) have none: "prefix_incremented bs = None" and b: "b = 255"
    by (auto split: option.splits if_splits)
  from Cons.prems(2) obtain c t where k: "k = c # t"
    by (cases k) auto
  from Cons.prems(2) have "c = b" and "bs \<le> t"
    unfolding k b using byte_max [of c] by auto
  then show ?case using Cons.IH [OF none] k by simp
qed

lemma prefix_range:
  "prefix_incremented p = Some e \<Longrightarrow> prefix p k \<longleftrightarrow> p \<le> k \<and> k < e"
proof (induction p arbitrary: k e)
  case Nil
  then show ?case by simp
next
  case (Cons b bs)
  show ?case
  proof (cases k)
    case Nil
    then show ?thesis by simp
  next
    case k: (Cons c t)
    show ?thesis
    proof (cases "prefix_incremented bs")
      case (Some bs')
      then have e: "e = b # bs'" using Cons.prems by simp
      have "prefix bs t \<longleftrightarrow> bs \<le> t \<and> t < bs'"
        by (rule Cons.IH [OF Some])
      then show ?thesis unfolding k e by auto
    next
      case None
      then have b: "b \<noteq> 255" and e: "e = [b + 1]"
        using Cons.prems by (auto split: if_splits)
      have "bs \<le> t \<longleftrightarrow> prefix bs t"
        using all_ff_prefix [OF None] prefix_le by blast
      then show ?thesis
        unfolding k e using byte_less_succ [OF b, of c] byte_less_succ_self [OF b] by auto
    qed
  qed
qed

lemma prefix_incremented_least:
  assumes "prefix_incremented p = Some e"
  shows "(\<forall>k. prefix p k \<longrightarrow> k < e) \<and> (\<forall>e'. (\<forall>k. prefix p k \<longrightarrow> k < e') \<longrightarrow> e \<le> e')"
proof (intro conjI allI impI)
  fix k assume "prefix p k"
  then show "k < e" using prefix_range [OF assms] by simp
next
  fix e' assume ub: "\<forall>k. prefix p k \<longrightarrow> k < e'"
  show "e \<le> e'"
  proof (rule ccontr)
    assume "\<not> e \<le> e'"
    then have lt: "e' < e" by simp
    have "p < e'" using ub by simp
    then have "prefix p e'" using prefix_range [OF assms, of e'] lt by simp
    then show False using ub by blast
  qed
qed

lemma takeWhile_prefix_sorted:
  "sorted_wrt (<) (map fst t) \<Longrightarrow> \<forall>x \<in> set t. p \<le> fst x \<Longrightarrow>
   takeWhile (\<lambda>x. prefix p (fst x)) t = filter (\<lambda>x. prefix p (fst x)) (t :: Entry list)"
proof (induction t)
  case Nil
  show ?case by simp
next
  case (Cons x t)
  show ?case
  proof (cases "prefix p (fst x)")
    case True
    then show ?thesis using Cons by auto
  next
    case False
    have "\<not> prefix p (fst y)" if "y \<in> set t" for y
    proof
      assume "prefix p (fst y)"
      moreover have "fst x \<le> fst y" using Cons.prems(1) that by auto
      moreover have "p \<le> fst x" using Cons.prems(2) by simp
      ultimately show False using prefix_convex False by blast
    qed
    then have "filter (\<lambda>x. prefix p (fst x)) t = []" by (simp add: filter_empty_conv)
    then show ?thesis using False by simp
  qed
qed

lemma prefix_selection:
  assumes "sorted_wrt (<) (map fst t)"
  shows "takeWhile (\<lambda>x. prefix p (fst x)) (filter (\<lambda>x. p \<le> fst x) t) =
         filter (\<lambda>x. prefix p (fst x)) (t :: Entry list)"
proof -
  have "sorted_wrt (<) (map fst (filter (\<lambda>x. p \<le> fst x) t))"
    using assms by (simp add: sorted_wrt_map sorted_wrt_filter)
  then have "takeWhile (\<lambda>x. prefix p (fst x)) (filter (\<lambda>x. p \<le> fst x) t) =
      filter (\<lambda>x. prefix p (fst x)) (filter (\<lambda>x. p \<le> fst x) t)"
    by (intro takeWhile_prefix_sorted) simp_all
  also have "\<dots> = filter (\<lambda>x. prefix p (fst x)) t"
    using prefix_le by (auto intro: filter_cong)
  finally show ?thesis .
qed

section \<open>Put and FlushPuts\<close>

text \<open>
  \<open>Put\<close> and \<open>FlushPuts\<close> by the engine's verdicts.
\<close>

lemma eng_flushed: "eng (flushed d wb) = eng d"
  by (simp add: flushed_def)

lemma Put_cases:
  "Put s key val =
     (case stage_fault (eng (db s)) (batch_of s) (key, Compress (compressor s) val) of
        None \<Rightarrow>
          (None, s \<lparr> writeBatch := Some (batch_of s @ [(key, Compress (compressor s) val)]) \<rparr>)
      | Some err \<Rightarrow>
          if err = ErrTxnTooBig then
            (case flush_fault (eng (db s)) (batch_of s) of
               Some ferr \<Rightarrow> (Some (Badger ferr), s \<lparr> writeBatch := Some (batch_of s) \<rparr>)
             | None \<Rightarrow>
                 (case stage_fault (eng (db s)) [] (key, Compress (compressor s) val) of
                    Some err2 \<Rightarrow>
                      (Some (AfterTxnTooBig err2),
                       s \<lparr> db := flushed (db s) (batch_of s), writeBatch := Some [] \<rparr>)
                  | None \<Rightarrow>
                      (None, s \<lparr> db := flushed (db s) (batch_of s),
                                 writeBatch := Some [(key, Compress (compressor s) val)] \<rparr>)))
          else (None, s \<lparr> writeBatch := Some (batch_of s) \<rparr>))"
  by (simp add: Put_def SetEntry_def Flush_def NewWriteBatch_def batch_of_def flushed_def Let_def
      split: option.splits)

lemma FlushPuts_cases:
  "FlushPuts s =
     (case writeBatch s of
        None \<Rightarrow> (None, s)
      | Some wb \<Rightarrow>
          (case flush_fault (eng (db s)) wb of
             Some err \<Rightarrow> (Some (Badger err), s)
           | None \<Rightarrow> (None, s \<lparr> db := flushed (db s) wb, writeBatch := Some [] \<rparr>)))"
  by (simp add: FlushPuts_def Flush_def NewWriteBatch_def flushed_def split: option.splits)





lemma well_formed_flushed:
  assumes "sorted_wrt (<) (map fst (table d))"
      and "snd ` set (table d) \<subseteq> V" and "snd ` set wb \<subseteq> V"
  shows "sorted_wrt (<) (map fst (table (flushed d wb))) \<and> snd ` set (table (flushed d wb)) \<subseteq> V"
proof
  show "sorted_wrt (<) (map fst (table (flushed d wb)))"
    using assms(1) by (simp add: flushed_def sorted_foldl_table_set)
  have "snd ` set (foldl table_set (table d) wb) \<subseteq> snd ` set (table d) \<union> snd ` set wb"
    by (rule values_foldl_table_set)
  also have "\<dots> \<subseteq> V" using assms(2,3) by blast
  finally show "snd ` set (table (flushed d wb)) \<subseteq> V"
    by (simp add: flushed_def)
qed

lemma well_formed_fresh: "well_formed (fresh_store e c)"
  by (simp add: well_formed_def fresh_store_def batch_of_def)

lemma well_formed_Put:
  assumes "well_formed s"
  shows "well_formed (snd (Put s key val))"
proof -
  let ?V = "range (Compress (compressor s))"
  have t: "sorted_wrt (<) (map fst (table (db s)))" "snd ` set (table (db s)) \<subseteq> ?V"
    and b: "snd ` set (batch_of s) \<subseteq> ?V"
    using assms by (simp_all add: well_formed_def)
  note f = well_formed_flushed [OF t b]
  show ?thesis
    using t b f
    by (auto simp add: Put_cases well_formed_def batch_of_def split: option.splits)
qed

lemma well_formed_Put_all: "well_formed s \<Longrightarrow> well_formed (Put_all s es)"
  by (induction es arbitrary: s) (simp_all add: well_formed_Put)

lemma well_formed_FlushPuts:
  assumes "well_formed s"
  shows "well_formed (snd (FlushPuts s))"
proof -
  let ?V = "range (Compress (compressor s))"
  have t: "sorted_wrt (<) (map fst (table (db s)))" "snd ` set (table (db s)) \<subseteq> ?V"
    and b: "snd ` set (batch_of s) \<subseteq> ?V"
    using assms by (simp_all add: well_formed_def)
  note f = well_formed_flushed [OF t b]
  show ?thesis
    using assms f
    by (auto simp add: FlushPuts_cases well_formed_def batch_of_def split: option.splits)
qed

lemma well_formed_written: "well_formed (written (fresh_store e c) es)"
  unfolding written_def
  by (intro well_formed_FlushPuts well_formed_Put_all well_formed_fresh)

lemma compressed_values:
  "snd ` set t \<subseteq> range f \<Longrightarrow> \<exists>kvs. t = map (\<lambda>e. (fst e, f (snd e))) kvs"
proof (induction t)
  case Nil
  show ?case by simp
next
  case (Cons x t)
  then obtain kvs where kvs: "t = map (\<lambda>e. (fst e, f (snd e))) kvs" by auto
  from Cons.prems obtain v where v: "snd x = f v" by auto
  have "x # t = map (\<lambda>e. (fst e, f (snd e))) ((fst x, v) # kvs)"
    using kvs v by (cases x) simp
  then show ?case by (rule exI)
qed

lemma well_formed_stored:
  assumes "well_formed s"
  shows "\<exists>kvs. table (db s) = map (stored (compressor s)) kvs \<and> sorted_wrt (<) (map fst kvs)"
proof -
  obtain kvs where kvs: "table (db s) = map (\<lambda>e. (fst e, Compress (compressor s) (snd e))) kvs"
    using assms compressed_values [of "table (db s)" "Compress (compressor s)"]
    by (auto simp add: well_formed_def)
  then have tab: "table (db s) = map (stored (compressor s)) kvs"
    by (simp add: stored_def [abs_def])
  have "map fst (table (db s)) = map fst kvs"
    by (simp add: kvs comp_def)
  then have "sorted_wrt (<) (map fst kvs)"
    using assms by (simp add: well_formed_def)
  then show ?thesis using tab by blast
qed

text \<open>
  The round trip where the write is staged: if \<open>Put\<close> returns success, the engine
  did not refuse the entry for a reason other than capacity, \<open>FlushPuts\<close> returns
  success and the engine reads the key without failure, then \<open>Get\<close> returns the
  value that was put.
\<close>

lemma Put_staged:
  assumes ok: "fst (Put s key val) = None"
      and acc: "\<forall>err. stage_fault (eng (db s)) (batch_of s) (key, Compress (compressor s) val)
                  = Some err \<longrightarrow> err = ErrTxnTooBig"
  shows "\<exists>wb. writeBatch (snd (Put s key val)) = Some (wb @ [(key, Compress (compressor s) val)])
           \<and> eng (db (snd (Put s key val))) = eng (db s)
           \<and> compressor (snd (Put s key val)) = compressor s"
proof (cases "stage_fault (eng (db s)) (batch_of s) (key, Compress (compressor s) val)")
  case None
  then show ?thesis by (simp add: Put_cases)
next
  case (Some err)
  then have err: "err = ErrTxnTooBig" using acc by simp
  show ?thesis
    using ok Some err
    by (auto simp add: Put_cases eng_flushed split: option.splits)
qed

lemma Put_FlushPuts_Get_round_trip:
  assumes rt: "round_trips (compressor s)"
      and ok: "fst (Put s key val) = None"
      and acc: "\<forall>err. stage_fault (eng (db s)) (batch_of s) (key, Compress (compressor s) val)
                  = Some err \<longrightarrow> err = ErrTxnTooBig"
      and fl: "fst (FlushPuts (snd (Put s key val))) = None"
      and gf: "get_fault (eng (db s)) key = None"
      and vf: "value_fault (eng (db s)) key = None"
  shows "Get (snd (FlushPuts (snd (Put s key val)))) key = Inr val"
proof -
  let ?s1 = "snd (Put s key val)"
  let ?s2 = "snd (FlushPuts ?s1)"
  let ?cv = "Compress (compressor s) val"
  obtain wb where wb: "writeBatch ?s1 = Some (wb @ [(key, ?cv)])"
    and e1: "eng (db ?s1) = eng (db s)" and c1: "compressor ?s1 = compressor s"
    using Put_staged [OF ok acc] by blast
  have ff: "flush_fault (eng (db ?s1)) (wb @ [(key, ?cv)]) = None"
    using fl wb by (simp add: FlushPuts_cases split: option.splits)
  have s2: "?s2 = ?s1 \<lparr> db := flushed (db ?s1) (wb @ [(key, ?cv)]), writeBatch := Some [] \<rparr>"
    using wb ff by (simp add: FlushPuts_cases)
  have "map_of (table (db ?s2)) key = Some ?cv"
    unfolding s2 by (simp add: flushed_def map_of_table_set)
  moreover have "eng (db ?s2) = eng (db s)" and "compressor ?s2 = compressor s"
    unfolding s2 using e1 c1 by (simp_all add: eng_flushed)
  moreover have "Decompress (compressor s) ?cv = Inr val"
    using rt by (simp add: round_trips_def)
  ultimately show ?thesis
    using gf vf by (simp add: Get_def txn_Get_def ValueCopy_def)
qed

text \<open>
  Where the engine refuses the entry for a reason other than capacity, the write is
  gone: \<open>Put\<close> and a following \<open>FlushPuts\<close> both return success, and a key that
  was neither in the table nor in the batch is still not found.
\<close>

lemma Put_dropped_then_not_found:
  assumes refused: "stage_fault (eng (db s)) (batch_of s) (key, Compress (compressor s) val) = Some err"
      and other: "err \<noteq> ErrTxnTooBig"
      and fl: "flush_fault (eng (db s)) (batch_of s) = None"
      and gf: "get_fault (eng (db s)) key = None"
      and new: "key \<notin> fst ` set (table (db s)) \<union> fst ` set (batch_of s)"
  shows "fst (Put s key val) = None
       \<and> fst (FlushPuts (snd (Put s key val))) = None
       \<and> Get (snd (FlushPuts (snd (Put s key val)))) key = Inl ErrNotFound"
proof -
  have put: "Put s key val = (None, s \<lparr> writeBatch := Some (batch_of s) \<rparr>)"
    using refused other by (simp add: Put_cases)
  have flush: "FlushPuts (s \<lparr> writeBatch := Some (batch_of s) \<rparr>) =
      (None, s \<lparr> db := flushed (db s) (batch_of s), writeBatch := Some [] \<rparr>)"
    using fl by (simp add: FlushPuts_cases)
  have "key \<notin> fst ` set (table (flushed (db s) (batch_of s)))"
    using new by (simp add: flushed_def set_foldl_table_set)
  then have "map_of (table (flushed (db s) (batch_of s))) key = None"
    by (simp add: map_of_eq_None_iff)
  then have "Get (s \<lparr> db := flushed (db s) (batch_of s), writeBatch := Some [] \<rparr>) key
      = Inl ErrNotFound"
    using gf by (simp add: Get_def txn_Get_def eng_flushed)
  then show ?thesis by (simp add: put flush)
qed

section \<open>What the producers push\<close>

subsection \<open>Shape of the pushed sequence\<close>

text \<open>
  Each loop only ever appends items to the iterator it is given; the terminal event is
  appended once, by the code that follows \<open>db.View\<close>.
\<close>

lemma pushed_PushItem: "pushed (PushItem it kv) = pushed it @ [PushedItem kv]"
  by (simp add: PushItem_def)

lemma BatchGet_loop_items:
  "\<exists>ys. pushed (fst (snd (BatchGet_loop s keys (kr, seen)))) = pushed kr @ map PushedItem ys"
proof (induction keys arbitrary: kr seen)
  case Nil
  show ?case by simp
next
  case (Cons key keys)
  show ?case
  proof (cases "txn_Get (db s) key")
    case (Inl err) then show ?thesis by simp
  next
    case (Inr item)
    show ?thesis
    proof (cases "ValueCopy (db s) item")
      case (Inl err) with Inr show ?thesis by simp
    next
      case vc: (Inr val)
      show ?thesis
      proof (cases "Decompress (compressor s) val")
        case (Inl msg) with Inr vc show ?thesis by simp
      next
        case dc: (Inr val')
        from Cons.IH [of "PushItem kr \<lparr> Key = KeyCopy item, Value = val' \<rparr>" "seen @ [key]"]
        obtain ys where "pushed (fst (snd (BatchGet_loop s keys
             (PushItem kr \<lparr> Key = KeyCopy item, Value = val' \<rparr>, seen @ [key])))) =
             pushed (PushItem kr \<lparr> Key = KeyCopy item, Value = val' \<rparr>) @ map PushedItem ys"
          by blast
        then have "pushed (fst (snd (BatchGet_loop s (key # keys) (kr, seen)))) =
            pushed kr @ map PushedItem (\<lparr> Key = KeyCopy item, Value = val' \<rparr> # ys)"
          using Inr vc dc by (simp add: pushed_PushItem)
        then show ?thesis by blast
      qed
    qed
  qed
qed

lemma Scan_loop_items:
  "\<exists>ys. pushed (snd (Scan_loop s e limit cur count sit)) = pushed sit @ map PushedItem ys"
proof (induction cur arbitrary: count sit)
  case Nil
  show ?case by simp
next
  case (Cons item cur)
  show ?case
  proof (cases "bytes_Compare (fst item) e \<noteq> - 1 \<or> Context_Err sit \<noteq> None")
    case True
    then show ?thesis by (auto split: option.splits)
  next
    case go: False
    show ?thesis
    proof (cases "ValueCopy (db s) item")
      case (Inl err) with go show ?thesis by simp
    next
      case vc: (Inr val)
      show ?thesis
      proof (cases "Decompress (compressor s) val")
        case (Inl msg) with go vc show ?thesis by simp
      next
        case dc: (Inr val')
        let ?sit = "PushItem sit \<lparr> Key = KeyCopy item, Value = val' \<rparr>"
        show ?thesis
        proof (cases "count + 1 = limit \<and> limit > 0")
          case True
          then have "pushed (snd (Scan_loop s e limit (item # cur) count sit)) =
              pushed sit @ map PushedItem [\<lparr> Key = KeyCopy item, Value = val' \<rparr>]"
            using go vc dc by (simp add: pushed_PushItem Let_def)
          then show ?thesis by blast
        next
          case False
          from Cons.IH [of "count + 1" ?sit]
          obtain ys where "pushed (snd (Scan_loop s e limit cur (count + 1) ?sit)) =
              pushed ?sit @ map PushedItem ys"
            by blast
          then have "pushed (snd (Scan_loop s e limit (item # cur) count sit)) =
              pushed sit @ map PushedItem (\<lparr> Key = KeyCopy item, Value = val' \<rparr> # ys)"
            using go vc dc False by (auto simp add: pushed_PushItem Let_def)
          then show ?thesis by blast
        qed
      qed
    qed
  qed
qed

lemma Prefix_loop_items:
  "\<exists>ys. pushed (snd (Prefix_loop s p cur count kr)) = pushed kr @ map PushedItem ys"
proof (induction cur arbitrary: count kr)
  case Nil
  show ?case by simp
next
  case (Cons item cur)
  show ?case
  proof (cases "\<not> HasPrefix (fst item) p \<or> Context_Err kr \<noteq> None")
    case True
    then show ?thesis by (auto split: option.splits)
  next
    case go: False
    show ?thesis
    proof (cases "ValueCopy (db s) item")
      case (Inl err) with go show ?thesis by simp
    next
      case vc: (Inr val)
      show ?thesis
      proof (cases "Decompress (compressor s) val")
        case (Inl msg) with go vc show ?thesis by simp
      next
        case dc: (Inr val')
        let ?kr = "PushItem kr \<lparr> Key = KeyCopy item, Value = val' \<rparr>"
        from Cons.IH [of "count + 1" ?kr]
        obtain ys where "pushed (snd (Prefix_loop s p cur (count + 1) ?kr)) =
            pushed ?kr @ map PushedItem ys"
          by blast
        then have "pushed (snd (Prefix_loop s p (item # cur) count kr)) =
            pushed kr @ map PushedItem (\<lparr> Key = KeyCopy item, Value = val' \<rparr> # ys)"
          using go vc dc by (simp add: pushed_PushItem Let_def)
        then show ?thesis by blast
      qed
    qed
  qed
qed

lemma finish_terminal:
  "\<exists>t. pushed (finish (err, it)) = pushed it @ [t] \<and> is_terminal t"
  by (cases err) (simp_all add: finish_def PushError_def PushFinished_def)

lemma finish_shape:
  assumes "pushed (snd r) = map PushedItem ys"
  shows "\<exists>items t. pushed (finish r) = map PushedItem items @ [t] \<and> is_terminal t"
  using finish_terminal [of "fst r" "snd r"] assms by auto

subsection \<open>Scan and Prefix\<close>

text \<open>
  With a token that is not triggered, an engine that reads every value and a compressor
  that round-trips, the loop of \<open>Scan\<close> pushes the entries under the cursor while
  their key is below the end, up to the limit, and the loop of \<open>Prefix\<close> pushes them
  while their key has the prefix.
\<close>

lemma Scan_loop_clean:
  assumes rt: "round_trips (compressor s)"
      and nf: "\<forall>k. value_fault (eng (db s)) k = None"
      and nc: "\<forall>n. ctx sit n = None"
      and cnt: "0 < limit \<longrightarrow> count < limit"
  shows "Scan_loop s e limit (map (stored (compressor s)) xs) count sit =
         (None, sit \<lparr> pushed := pushed sit @ map (PushedItem \<circ> KV_of)
             (if 0 < limit then take (nat (limit - count)) (takeWhile (\<lambda>x. fst x < e) xs)
              else takeWhile (\<lambda>x. fst x < e) xs) \<rparr>)"
  using nc cnt
proof (induction xs arbitrary: count sit)
  case Nil
  show ?case by simp
next
  case (Cons x xs)
  let ?item = "stored (compressor s) x"
  show ?case
  proof (cases "fst x < e")
    case False
    then show ?thesis by (simp add: stored_def bytes_Compare_less)
  next
    case True
    let ?sit = "PushItem sit \<lparr> Key = KeyCopy ?item, Value = snd x \<rparr>"
    have kv: "\<lparr> Key = KeyCopy ?item, Value = snd x \<rparr> = KV_of x"
      by (simp add: KV_of_def KeyCopy_def stored_def)
    have vc: "ValueCopy (db s) ?item = Inr (Compress (compressor s) (snd x))"
      using nf by (simp add: ValueCopy_def stored_def)
    have dc: "Decompress (compressor s) (Compress (compressor s) (snd x)) = Inr (snd x)"
      using rt by (simp add: round_trips_def)
    have ce: "Context_Err sit = None"
      using Cons.prems(1) by (simp add: Context_Err_def)
    have cmp: "bytes_Compare (fst ?item) e = - 1"
      using True by (simp add: stored_def bytes_Compare_less)
    show ?thesis
    proof (cases "count + 1 = limit \<and> 0 < limit")
      case last: True
      then have "limit - count = 1" by arith
      then have "nat (limit - count) = Suc 0" by simp
      then show ?thesis
        using last True cmp ce vc dc kv by (simp add: Let_def PushItem_def)
    next
      case more: False
      have c': "0 < limit \<longrightarrow> count + 1 < limit"
        using more Cons.prems(2) by auto
      have n': "\<forall>n. ctx ?sit n = None"
        using Cons.prems(1) by (simp add: PushItem_def)
      have step: "Scan_loop s e limit (map (stored (compressor s)) (x # xs)) count sit =
          Scan_loop s e limit (map (stored (compressor s)) xs) (count + 1) ?sit"
        using more cmp ce vc dc by (auto simp add: Let_def)
      have tk: "0 < limit \<Longrightarrow> take (nat (limit - count)) (x # ys) = x # take (nat (limit - (count + 1))) ys" for ys
      proof -
        assume "0 < limit"
        then have "count + 1 < limit" using c' by simp
        then have "nat (limit - count) = Suc (nat (limit - (count + 1)))"
          by arith
        then show ?thesis by simp
      qed
      show ?thesis
        unfolding step Cons.IH [OF n' c']
        using True kv tk by (simp add: PushItem_def)
    qed
  qed
qed

lemma Prefix_loop_clean:
  assumes rt: "round_trips (compressor s)"
      and nf: "\<forall>k. value_fault (eng (db s)) k = None"
      and nc: "\<forall>n. ctx kr n = None"
  shows "Prefix_loop s p (map (stored (compressor s)) xs) count kr =
         (None, kr \<lparr> pushed := pushed kr @ map (PushedItem \<circ> KV_of)
             (takeWhile (\<lambda>x. prefix p (fst x)) xs) \<rparr>)"
  using nc
proof (induction xs arbitrary: count kr)
  case Nil
  show ?case by simp
next
  case (Cons x xs)
  let ?item = "stored (compressor s) x"
  show ?case
  proof (cases "prefix p (fst x)")
    case False
    then show ?thesis by (simp add: stored_def HasPrefix_prefix)
  next
    case True
    let ?kr = "PushItem kr \<lparr> Key = KeyCopy ?item, Value = snd x \<rparr>"
    have kv: "\<lparr> Key = KeyCopy ?item, Value = snd x \<rparr> = KV_of x"
      by (simp add: KV_of_def KeyCopy_def stored_def)
    have vc: "ValueCopy (db s) ?item = Inr (Compress (compressor s) (snd x))"
      using nf by (simp add: ValueCopy_def stored_def)
    have dc: "Decompress (compressor s) (Compress (compressor s) (snd x)) = Inr (snd x)"
      using rt by (simp add: round_trips_def)
    have ce: "Context_Err kr = None"
      using Cons.prems by (simp add: Context_Err_def)
    have hp: "HasPrefix (fst ?item) p"
      using True by (simp add: stored_def HasPrefix_prefix)
    have n': "\<forall>n. ctx ?kr n = None"
      using Cons.prems by (simp add: PushItem_def)
    have step: "Prefix_loop s p (map (stored (compressor s)) (x # xs)) count kr =
        Prefix_loop s p (map (stored (compressor s)) xs) (count + 1) ?kr"
      using hp ce vc dc by simp
    show ?thesis
      unfolding step Cons.IH [OF n']
      using True kv by (simp add: PushItem_def)
  qed
qed

text \<open>
  The two loops run alike on a cursor where "below the end" and "has the prefix" agree.
\<close>

lemma Scan_loop_as_Prefix_loop:
  assumes "\<forall>x \<in> set cur. (fst x < e) = prefix p (fst x)"
  shows "Scan_loop s e 0 cur n sit = Prefix_loop s p cur m sit"
  using assms
proof (induction cur arbitrary: n m sit)
  case Nil
  show ?case by simp
next
  case (Cons item cur)
  have c: "(bytes_Compare (fst item) e \<noteq> - 1) = (\<not> HasPrefix (fst item) p)"
    using Cons.prems by (simp add: bytes_Compare_less HasPrefix_prefix)
  have ih: "Scan_loop s e 0 cur (n + 1) it = Prefix_loop s p cur (m + 1) it" for it
    using Cons.IH Cons.prems by simp
  show ?case
    by (simp add: c ih Let_def split: option.splits sum.splits)
qed

lemma Prefix_eq_Scan:
  assumes srt: "sorted_wrt (<) (map fst (table (db s)))"
      and rng: "\<forall>k. pfx \<le> k \<longrightarrow> (k < e) = prefix pfx k"
  shows "Prefix s c pfx = Scan s c pfx e 0"
proof -
  have "\<forall>x \<in> set (Seek (db s) pfx). (fst x < e) = prefix pfx (fst x)"
    using rng by (simp add: Seek_sorted [OF srt])
  then have "Scan_loop s e 0 (Seek (db s) pfx) 0 (NewIterator c) =
      Prefix_loop s pfx (Seek (db s) pfx) 0 (NewIterator c)"
    by (rule Scan_loop_as_Prefix_loop)
  then show ?thesis
    by (simp add: Prefix_def Scan_def)
qed

text \<open>
  Cancellation in \<open>Scan\<close> and \<open>Prefix\<close>. The token is asked once per entry, before
  the entry is read. If its first answer that is an error comes at check number \<open>m\<close>
  (counted from 0), while entries remain and the limit is not reached, then the
  \<open>m\<close> entries before it are pushed and the iterator ends with that error.
\<close>

lemma Scan_loop_cancelled:
  assumes rt: "round_trips (compressor s)"
      and nf: "\<forall>k. value_fault (eng (db s)) k = None"
      and before: "\<forall>n < m. ctx sit (length (pushed sit) + n) = None"
      and at: "ctx sit (length (pushed sit) + m) = Some err"
      and more: "m < length (takeWhile (\<lambda>x. fst x < e) xs)"
      and lim: "0 < limit \<longrightarrow> count + int m < limit"
  shows "Scan_loop s e limit (map (stored (compressor s)) xs) count sit =
         (Some (Ctx err), sit \<lparr> pushed := pushed sit @ map (PushedItem \<circ> KV_of) (take m xs) \<rparr>)"
  using before at more lim
proof (induction xs arbitrary: m count sit)
  case Nil
  then show ?case by simp
next
  case (Cons x xs)
  let ?item = "stored (compressor s) x"
  have inr: "fst x < e"
    using Cons.prems(3) by (cases "fst x < e") simp_all
  have cmp: "bytes_Compare (fst ?item) e = - 1"
    using inr by (simp add: stored_def bytes_Compare_less)
  show ?case
  proof (cases m)
    case 0
    then have "Context_Err sit = Some err"
      using Cons.prems(2) by (simp add: Context_Err_def)
    then show ?thesis using 0 cmp by simp
  next
    case (Suc m')
    let ?sit = "PushItem sit \<lparr> Key = KeyCopy ?item, Value = snd x \<rparr>"
    have kv: "\<lparr> Key = KeyCopy ?item, Value = snd x \<rparr> = KV_of x"
      by (simp add: KV_of_def KeyCopy_def stored_def)
    have vc: "ValueCopy (db s) ?item = Inr (Compress (compressor s) (snd x))"
      using nf by (simp add: ValueCopy_def stored_def)
    have dc: "Decompress (compressor s) (Compress (compressor s) (snd x)) = Inr (snd x)"
      using rt by (simp add: round_trips_def)
    have ce: "Context_Err sit = None"
      using Cons.prems(1) [rule_format, of 0] Suc by (simp add: Context_Err_def)
    have nl: "\<not> (count + 1 = limit \<and> 0 < limit)"
      using Cons.prems(4) Suc by auto
    have step: "Scan_loop s e limit (map (stored (compressor s)) (x # xs)) count sit =
        Scan_loop s e limit (map (stored (compressor s)) xs) (count + 1) ?sit"
      using nl cmp ce vc dc by (auto simp add: Let_def)
    have b': "\<forall>n < m'. ctx ?sit (length (pushed ?sit) + n) = None"
    proof (intro allI impI)
      fix n assume "n < m'"
      then have "ctx sit (length (pushed sit) + Suc n) = None"
        using Cons.prems(1) [rule_format, of "Suc n"] Suc by simp
      then show "ctx ?sit (length (pushed ?sit) + n) = None"
        by (simp add: PushItem_def)
    qed
    have a': "ctx ?sit (length (pushed ?sit) + m') = Some err"
      using Cons.prems(2) Suc by (simp add: PushItem_def)
    have m': "m' < length (takeWhile (\<lambda>x. fst x < e) xs)"
      using Cons.prems(3) Suc inr by simp
    have l': "0 < limit \<longrightarrow> (count + 1) + int m' < limit"
      using Cons.prems(4) Suc by auto
    show ?thesis
      unfolding step Cons.IH [OF b' a' m' l']
      using Suc kv by (simp add: PushItem_def)
  qed
qed

lemma Prefix_loop_cancelled:
  assumes rt: "round_trips (compressor s)"
      and nf: "\<forall>k. value_fault (eng (db s)) k = None"
      and before: "\<forall>n < m. ctx kr (length (pushed kr) + n) = None"
      and at: "ctx kr (length (pushed kr) + m) = Some err"
      and more: "m < length (takeWhile (\<lambda>x. prefix p (fst x)) xs)"
  shows "Prefix_loop s p (map (stored (compressor s)) xs) count kr =
         (Some (Ctx err), kr \<lparr> pushed := pushed kr @ map (PushedItem \<circ> KV_of) (take m xs) \<rparr>)"
  using before at more
proof (induction xs arbitrary: m count kr)
  case Nil
  then show ?case by simp
next
  case (Cons x xs)
  let ?item = "stored (compressor s) x"
  have inr: "prefix p (fst x)"
    using Cons.prems(3) by (cases "prefix p (fst x)") simp_all
  have hp: "HasPrefix (fst ?item) p"
    using inr by (simp add: stored_def HasPrefix_prefix)
  show ?case
  proof (cases m)
    case 0
    then have "Context_Err kr = Some err"
      using Cons.prems(2) by (simp add: Context_Err_def)
    then show ?thesis using 0 hp by simp
  next
    case (Suc m')
    let ?kr = "PushItem kr \<lparr> Key = KeyCopy ?item, Value = snd x \<rparr>"
    have kv: "\<lparr> Key = KeyCopy ?item, Value = snd x \<rparr> = KV_of x"
      by (simp add: KV_of_def KeyCopy_def stored_def)
    have vc: "ValueCopy (db s) ?item = Inr (Compress (compressor s) (snd x))"
      using nf by (simp add: ValueCopy_def stored_def)
    have dc: "Decompress (compressor s) (Compress (compressor s) (snd x)) = Inr (snd x)"
      using rt by (simp add: round_trips_def)
    have ce: "Context_Err kr = None"
      using Cons.prems(1) [rule_format, of 0] Suc by (simp add: Context_Err_def)
    have step: "Prefix_loop s p (map (stored (compressor s)) (x # xs)) count kr =
        Prefix_loop s p (map (stored (compressor s)) xs) (count + 1) ?kr"
      using hp ce vc dc by simp
    have b': "\<forall>n < m'. ctx ?kr (length (pushed ?kr) + n) = None"
    proof (intro allI impI)
      fix n assume "n < m'"
      then have "ctx kr (length (pushed kr) + Suc n) = None"
        using Cons.prems(1) [rule_format, of "Suc n"] Suc by simp
      then show "ctx ?kr (length (pushed ?kr) + n) = None"
        by (simp add: PushItem_def)
    qed
    have a': "ctx ?kr (length (pushed ?kr) + m') = Some err"
      using Cons.prems(2) Suc by (simp add: PushItem_def)
    have m': "m' < length (takeWhile (\<lambda>x. prefix p (fst x)) xs)"
      using Cons.prems(3) Suc inr by simp
    show ?thesis
      unfolding step Cons.IH [OF b' a' m']
      using Suc kv by (simp add: PushItem_def)
  qed
qed

lemma Scan_cancelled:
  assumes tab: "table (db s) = map (stored (compressor s)) kvs"
      and srt: "sorted_wrt (<) (map fst kvs)"
      and rt: "round_trips (compressor s)"
      and nf: "\<forall>k. value_fault (eng (db s)) k = None"
      and before: "\<forall>n < m. c n = None"
      and at: "c m = Some err"
      and more: "m < length (filter (\<lambda>x. start \<le> fst x \<and> fst x < exclusiveEnd) kvs)"
      and lim: "0 < limit \<longrightarrow> int m < limit"
  shows "pushed (Scan s c start exclusiveEnd limit) =
           map (PushedItem \<circ> KV_of)
             (take m (filter (\<lambda>x. start \<le> fst x \<and> fst x < exclusiveEnd) kvs))
           @ [PushedError (Ctx err)]"
proof -
  let ?from = "filter (\<lambda>x. start \<le> fst x) kvs"
  have fsts: "map fst (table (db s)) = map fst kvs"
    by (simp add: tab stored_def comp_def)
  have "Seek (db s) start = filter (\<lambda>x. start \<le> fst x) (table (db s))"
    by (rule Seek_sorted) (simp add: fsts srt)
  also have "\<dots> = map (stored (compressor s)) ?from"
    by (simp add: tab filter_map comp_def stored_def)
  finally have seek: "Seek (db s) start = map (stored (compressor s)) ?from" .
  have "sorted_wrt (<) (map fst ?from)"
    using srt by (simp add: sorted_wrt_map sorted_wrt_filter)
  then have sel: "takeWhile (\<lambda>x. fst x < exclusiveEnd) ?from =
      filter (\<lambda>x. start \<le> fst x \<and> fst x < exclusiveEnd) kvs"
    by (simp add: takeWhile_sorted conj_commute)
  have "m \<le> length (takeWhile (\<lambda>x. fst x < exclusiveEnd) ?from)"
    using more sel by simp
  then have tk: "take m ?from = take m (takeWhile (\<lambda>x. fst x < exclusiveEnd) ?from)"
    by (rule take_within_takeWhile [symmetric])
  have "Scan_loop s exclusiveEnd limit (map (stored (compressor s)) ?from) 0 (NewIterator c) =
      (Some (Ctx err), (NewIterator c) \<lparr> pushed := pushed (NewIterator c) @
         map (PushedItem \<circ> KV_of) (take m ?from) \<rparr>)"
    using before at more lim by (intro Scan_loop_cancelled rt nf) (simp_all add: NewIterator_def sel)
  then show ?thesis
    by (simp add: Scan_def seek tk sel finish_def PushError_def NewIterator_def)
qed

lemma Prefix_cancelled:
  assumes tab: "table (db s) = map (stored (compressor s)) kvs"
      and srt: "sorted_wrt (<) (map fst kvs)"
      and rt: "round_trips (compressor s)"
      and nf: "\<forall>k. value_fault (eng (db s)) k = None"
      and before: "\<forall>n < m. c n = None"
      and at: "c m = Some err"
      and more: "m < length (filter (\<lambda>x. prefix pfx (fst x)) kvs)"
  shows "pushed (Prefix s c pfx) =
           map (PushedItem \<circ> KV_of) (take m (filter (\<lambda>x. prefix pfx (fst x)) kvs))
           @ [PushedError (Ctx err)]"
proof -
  let ?from = "filter (\<lambda>x. pfx \<le> fst x) kvs"
  have fsts: "map fst (table (db s)) = map fst kvs"
    by (simp add: tab stored_def comp_def)
  have "Seek (db s) pfx = filter (\<lambda>x. pfx \<le> fst x) (table (db s))"
    by (rule Seek_sorted) (simp add: fsts srt)
  also have "\<dots> = map (stored (compressor s)) ?from"
    by (simp add: tab filter_map comp_def stored_def)
  finally have seek: "Seek (db s) pfx = map (stored (compressor s)) ?from" .
  have sel: "takeWhile (\<lambda>x. prefix pfx (fst x)) ?from = filter (\<lambda>x. prefix pfx (fst x)) kvs"
    by (rule prefix_selection [OF srt])
  have "m \<le> length (takeWhile (\<lambda>x. prefix pfx (fst x)) ?from)"
    using more sel by simp
  then have tk: "take m ?from = take m (takeWhile (\<lambda>x. prefix pfx (fst x)) ?from)"
    by (rule take_within_takeWhile [symmetric])
  have "Prefix_loop s pfx (map (stored (compressor s)) ?from) 0 (NewIterator c) =
      (Some (Ctx err), (NewIterator c) \<lparr> pushed := pushed (NewIterator c) @
         map (PushedItem \<circ> KV_of) (take m ?from) \<rparr>)"
    using before at more by (intro Prefix_loop_cancelled rt nf) (simp_all add: NewIterator_def sel)
  then show ?thesis
    by (simp add: Prefix_def seek tk sel finish_def PushError_def NewIterator_def)
qed

subsection \<open>BatchGet\<close>

text \<open>
  The loop of \<open>BatchGet\<close> by rounds: it pushes the pair of each key that reads well
  and returns at the first key that does not. The token plays no part in it.
\<close>

lemma BatchGet_loop_step:
  "BatchGet_loop s (key # keys) (kr, seen) =
     (case read_key s key of
        Inl err \<Rightarrow> (Some err, kr, seen @ [key])
      | Inr kv \<Rightarrow> BatchGet_loop s keys (PushItem kr kv, seen @ [key]))"
  by (simp add: read_key_def split: sum.splits)

lemma BatchGet_loop_reads:
  assumes "\<forall>p \<in> set ps. read_key s (fst p) = Inr (KV_of p)"
  shows "BatchGet_loop s (map fst ps @ rest) (kr, seen) =
         BatchGet_loop s rest
           (kr \<lparr> pushed := pushed kr @ map (PushedItem \<circ> KV_of) ps \<rparr>, seen @ map fst ps)"
  using assms
proof (induction ps arbitrary: kr seen)
  case Nil
  show ?case by simp
next
  case (Cons p ps)
  have "BatchGet_loop s (map fst (p # ps) @ rest) (kr, seen) =
      BatchGet_loop s (map fst ps @ rest) (PushItem kr (KV_of p), seen @ [fst p])"
    using Cons.prems by (simp add: BatchGet_loop_step del: BatchGet_loop.simps)
  also have "\<dots> = BatchGet_loop s rest
      ((PushItem kr (KV_of p)) \<lparr> pushed := pushed (PushItem kr (KV_of p)) @ map (PushedItem \<circ> KV_of) ps \<rparr>,
       (seen @ [fst p]) @ map fst ps)"
    using Cons.prems by (intro Cons.IH) simp
  finally show ?case by (simp add: PushItem_def comp_def del: BatchGet_loop.simps)
qed

lemma BatchGet_pushed:
  "pushed (BatchGet s c keys) =
     (case BatchGet_loop s keys (NewIterator c, []) of
        (Some err, kr, seen) \<Rightarrow> pushed kr @ [PushedError err]
      | (None, kr, seen) \<Rightarrow> pushed kr @ [PushedFinished])"
  by (simp add: BatchGet_def BatchGet_view_def finish_def PushError_def PushFinished_def
      split: prod.splits option.splits)

lemma BatchGet_loop_fails:
  assumes "\<forall>p \<in> set ps. read_key s (fst p) = Inr (KV_of p)" and "read_key s k = Inl err"
  shows "BatchGet_loop s (map fst ps @ k # rest) (NewIterator c, []) =
         (Some err, \<lparr> ctx = c, pushed = map (PushedItem \<circ> KV_of) ps \<rparr>, map fst ps @ [k])"
proof -
  have "BatchGet_loop s (map fst ps @ k # rest) (NewIterator c, []) =
      BatchGet_loop s (k # rest)
        ((NewIterator c) \<lparr> pushed := pushed (NewIterator c) @ map (PushedItem \<circ> KV_of) ps \<rparr>,
         [] @ map fst ps)"
    by (rule BatchGet_loop_reads [OF assms(1)])
  then show ?thesis
    using assms(2) by (simp add: BatchGet_loop_step NewIterator_def del: BatchGet_loop.simps)
qed

lemma map_of_stored:
  assumes "distinct (map fst kvs)" and "p \<in> set kvs"
  shows "map_of (map (stored c) kvs) (fst p) = Some (Compress c (snd p))"
proof -
  have "distinct (map fst (map (stored c) kvs))"
    using assms(1) by (simp add: stored_def comp_def)
  moreover have "(fst p, Compress c (snd p)) \<in> set (map (stored c) kvs)"
    using assms(2) by (force simp: stored_def)
  ultimately show ?thesis by (rule map_of_is_SomeI)
qed

lemma read_key_stored:
  assumes tab: "table (db s) = map (stored (compressor s)) kvs"
      and dst: "distinct (map fst kvs)"
      and rt: "round_trips (compressor s)"
      and p: "p \<in> set kvs"
      and gf: "get_fault (eng (db s)) (fst p) = None"
      and vf: "value_fault (eng (db s)) (fst p) = None"
  shows "read_key s (fst p) = Inr (KV_of p)"
proof -
  have "txn_Get (db s) (fst p) = Inr (fst p, Compress (compressor s) (snd p))"
    using gf by (simp add: txn_Get_def tab map_of_stored [OF dst p])
  moreover have "Decompress (compressor s) (Compress (compressor s) (snd p)) = Inr (snd p)"
    using rt by (simp add: round_trips_def)
  ultimately show ?thesis
    using vf by (simp add: read_key_def ValueCopy_def KeyCopy_def KV_of_def)
qed

lemma read_key_absent:
  assumes "table (db s) = map (stored (compressor s)) kvs"
      and "k \<notin> fst ` set kvs" and "get_fault (eng (db s)) k = None"
  shows "read_key s k = Inl (Badger ErrKeyNotFound)"
proof -
  have "map_of (map (stored (compressor s)) kvs) k = None"
    using assms(2) by (simp add: map_of_eq_None_iff stored_def image_image)
  then show ?thesis
    using assms(1,3) by (simp add: read_key_def txn_Get_def)
qed

lemma BatchGet_loop_token:
  "BatchGet_loop s keys (kr \<lparr> ctx := c' \<rparr>, seen) =
     (case BatchGet_loop s keys (kr, seen) of (err, it, sn) \<Rightarrow> (err, it \<lparr> ctx := c' \<rparr>, sn))"
proof (induction keys arbitrary: kr seen)
  case Nil
  show ?case by simp
next
  case (Cons key keys)
  have push: "PushItem (kr \<lparr> ctx := c' \<rparr>) kv = (PushItem kr kv) \<lparr> ctx := c' \<rparr>" for kv
    by (simp add: PushItem_def)
  show ?case
    by (simp add: push Cons.IH split: sum.splits)
qed

lemma BatchGet_token_unused: "pushed (BatchGet s c keys) = pushed (BatchGet s c' keys)"
proof -
  have "NewIterator c' = (NewIterator c) \<lparr> ctx := c' \<rparr>"
    by (simp add: NewIterator_def)
  then have "BatchGet_loop s keys (NewIterator c', []) =
      (case BatchGet_loop s keys (NewIterator c, []) of (err, it, sn) \<Rightarrow> (err, it \<lparr> ctx := c' \<rparr>, sn))"
    using BatchGet_loop_token [where s = s and keys = keys and kr = "NewIterator c" and c' = c' and seen = "[]"]
    by simp
  then show ?thesis
    by (simp add: BatchGet_pushed split: prod.splits option.splits)
qed

section \<open>Concrete runs\<close>

lemma round_trips_none: "round_trips none_compressor"
  by (simp add: round_trips_def none_compressor_def)

lemma round_trips_tag: "round_trips tag_compressor"
  by (simp add: round_trips_def tag_compressor_def)

lemma tag_compressor_simps:
  "Compress tag_compressor v = 1 # v"
  "Decompress tag_compressor (1 # v) = Inr v"
  by (simp_all add: tag_compressor_def)

lemmas run_defs =
  Put_def FlushPuts_def SetEntry_def Flush_def NewWriteBatch_def written_def fresh_store_def
  bounded_engine_def entry_size_def stored_def tag_compressor_simps

lemma abcd_store_simps:
  "table (db abcd_store) = [([97], [1, 1]), ([98], [1, 2]), ([99], [1, 3]), ([100], [1, 4])]"
  "compressor abcd_store = tag_compressor"
  "eng (db abcd_store) = bounded_engine 8 64"
  "writeBatch abcd_store = Some []"
  by (simp_all add: abcd_store_def run_defs)

lemma ab_store_simps:
  "table (db ab_store) = [([97, 98], [1, 5]), ([97, 99], [1, 6]), ([98], [1, 7])]"
  "compressor ab_store = tag_compressor"
  "eng (db ab_store) = bounded_engine 8 64"
  by (simp_all add: ab_store_def run_defs)

lemma flaky_store_simps:
  "table (db flaky_store) = [([97], [1, 1]), ([98], [1, 2]), ([99], [1, 3]), ([100], [1, 4])]"
  "compressor flaky_store = tag_compressor"
  "get_fault (eng (db flaky_store)) k = (if k = [] then Some (ErrEngine ''Key cannot be empty'') else None)"
  "value_fault (eng (db flaky_store)) k = (if k = [99] then Some (ErrEngine ''read error'') else None)"
  by (simp_all add: flaky_store_def abcd_store_simps bounded_engine_def)

section \<open>The claims\<close>

subsection \<open>C1: round trip through Put, FlushPuts and Get\<close>

text \<open>
  C1. The claim: for every key and value, after \<open>Put(k, v)\<close> and a successful
  \<open>FlushPuts\<close>, \<open>Get(k)\<close> returns exactly \<open>v\<close>. Where the write is staged this
  holds (\<open>Put_FlushPuts_Get_round_trip\<close> above). It fails where the engine refuses the
  entry at staging for a reason other than capacity (\<open>Put_dropped_then_not_found\<close>
  above): \<open>Put\<close> tests the error of \<open>SetEntry\<close> against \<open>ErrTxnTooBig\<close> only and
  ends in \<open>return nil\<close>. The run below is on an engine that takes keys of at most 4
  bytes: a pair with a key of 5 bytes is put with success and flushed with success, and
  \<open>Get\<close> of that key answers \<open>ErrNotFound\<close> instead of the value.
\<close>

theorem Put_dropped_write_not_readable:
  "fst (Put small_key_store [1, 2, 3, 4, 5] [9]) = None
   \<and> fst (FlushPuts (snd (Put small_key_store [1, 2, 3, 4, 5] [9]))) = None
   \<and> Get (snd (FlushPuts (snd (Put small_key_store [1, 2, 3, 4, 5] [9])))) [1, 2, 3, 4, 5]
       = Inl ErrNotFound"
  by (simp add: small_key_store_def Put_cases FlushPuts_cases batch_of_def fresh_store_def
      bounded_engine_def flushed_def Get_def txn_Get_def)

subsection \<open>C2: Scan\<close>

text \<open>
  C2. Let the store hold the pairs \<open>kvs\<close>, in ascending key order, each value
  compressed by the store's compressor, which round-trips; let the engine read every
  value and the token stay untriggered. Then \<open>Scan(start, exclusiveEnd, limit)\<close> pushes
  exactly the stored pairs whose key \<open>k\<close> has \<open>start \<le> k < exclusiveEnd\<close> in the
  lexicographic order of unsigned bytes, values decompressed, in the order of the
  table, which is ascending; only the first \<open>limit\<close> of them if \<open>limit > 0\<close>, all
  of them if \<open>limit \<le> 0\<close>; and then finished.
\<close>

theorem Scan_yields_range:
  assumes tab: "table (db s) = map (stored (compressor s)) kvs"
      and srt: "sorted_wrt (<) (map fst kvs)"
      and rt: "round_trips (compressor s)"
      and nf: "\<forall>k. value_fault (eng (db s)) k = None"
      and nc: "\<forall>n. c n = None"
  shows "pushed (Scan s c start exclusiveEnd limit) =
           map (PushedItem \<circ> KV_of)
             (if 0 < limit
              then take (nat limit) (filter (\<lambda>x. start \<le> fst x \<and> fst x < exclusiveEnd) kvs)
              else filter (\<lambda>x. start \<le> fst x \<and> fst x < exclusiveEnd) kvs)
           @ [PushedFinished]
         \<and> sorted_wrt (<) (map fst (filter (\<lambda>x. start \<le> fst x \<and> fst x < exclusiveEnd) kvs))"
proof
  let ?from = "filter (\<lambda>x. start \<le> fst x) kvs"
  have fsts: "map fst (table (db s)) = map fst kvs"
    by (simp add: tab stored_def comp_def)
  have "Seek (db s) start = filter (\<lambda>x. start \<le> fst x) (table (db s))"
    by (rule Seek_sorted) (simp add: fsts srt)
  also have "\<dots> = map (stored (compressor s)) ?from"
    by (simp add: tab filter_map comp_def stored_def)
  finally have seek: "Seek (db s) start = map (stored (compressor s)) ?from" .
  have "sorted_wrt (<) (map fst ?from)"
    using srt by (simp add: sorted_wrt_map sorted_wrt_filter)
  then have sel: "takeWhile (\<lambda>x. fst x < exclusiveEnd) ?from =
      filter (\<lambda>x. start \<le> fst x \<and> fst x < exclusiveEnd) kvs"
    by (simp add: takeWhile_sorted conj_commute)
  have "\<forall>n. ctx (NewIterator c) n = None"
    using nc by (simp add: NewIterator_def)
  then have "Scan_loop s exclusiveEnd limit (map (stored (compressor s)) ?from) 0 (NewIterator c) =
      (None, (NewIterator c) \<lparr> pushed := pushed (NewIterator c) @ map (PushedItem \<circ> KV_of)
         (if 0 < limit then take (nat (limit - 0)) (takeWhile (\<lambda>x. fst x < exclusiveEnd) ?from)
          else takeWhile (\<lambda>x. fst x < exclusiveEnd) ?from) \<rparr>)"
    by (intro Scan_loop_clean rt nf) simp_all
  then show "pushed (Scan s c start exclusiveEnd limit) =
           map (PushedItem \<circ> KV_of)
             (if 0 < limit
              then take (nat limit) (filter (\<lambda>x. start \<le> fst x \<and> fst x < exclusiveEnd) kvs)
              else filter (\<lambda>x. start \<le> fst x \<and> fst x < exclusiveEnd) kvs)
           @ [PushedFinished]"
    by (simp add: Scan_def seek sel finish_def PushFinished_def NewIterator_def)
  show "sorted_wrt (<) (map fst (filter (\<lambda>x. start \<le> fst x \<and> fst x < exclusiveEnd) kvs))"
    using srt by (simp add: sorted_wrt_map sorted_wrt_filter)
qed

text \<open>
  With keys a, b, c, d written: \<open>Scan("b", "d", 0)\<close> yields b, c and
  \<open>Scan("a", "d", 1)\<close> yields a.
\<close>

theorem Scan_yields_range_witness:
  "pushed (Scan abcd_store (\<lambda>n. None) [98] [100] 0) =
     [PushedItem \<lparr> Key = [98], Value = [2] \<rparr>, PushedItem \<lparr> Key = [99], Value = [3] \<rparr>,
      PushedFinished]
   \<and> pushed (Scan abcd_store (\<lambda>n. None) [97] [100] 1) =
     [PushedItem \<lparr> Key = [97], Value = [1] \<rparr>, PushedFinished]"
  using Scan_yields_range [of abcd_store "[([97], [1]), ([98], [2]), ([99], [3]), ([100], [4])]"
      "\<lambda>n. None" "[98]" "[100]" 0]
    Scan_yields_range [of abcd_store "[([97], [1]), ([98], [2]), ([99], [3]), ([100], [4])]"
      "\<lambda>n. None" "[97]" "[100]" 1]
  by (simp add: abcd_store_simps round_trips_tag stored_def KV_of_def bounded_engine_def
      tag_compressor_simps)

subsection \<open>C3: Prefix\<close>

text \<open>
  C3. On a table in ascending key order: (1) if the table holds the pairs \<open>kvs\<close>,
  values compressed by a compressor that round-trips, the engine reads every value and
  the token stays untriggered, then \<open>Prefix(p)\<close> pushes exactly the stored pairs
  whose key starts with \<open>p\<close>, in ascending key order, and then finished: a key
  without the prefix is never pushed. (2) \<open>Prefix(p)\<close> is the same iterator as the
  unbounded scan \<open>Scan(p, e, 0)\<close> over the prefix's key range, whatever the engine
  and the token do: for \<open>e\<close> the incremented prefix where there is one, and for any
  \<open>e\<close> above every stored key where there is none (the range has no upper end then).
\<close>

theorem Prefix_yields_prefixed:
  assumes srt: "sorted_wrt (<) (map fst (table (db s)))"
  shows "(table (db s) = map (stored (compressor s)) kvs \<and> round_trips (compressor s)
            \<and> (\<forall>k. value_fault (eng (db s)) k = None) \<and> (\<forall>n. c n = None)
          \<longrightarrow> pushed (Prefix s c pfx) =
                map (PushedItem \<circ> KV_of) (filter (\<lambda>x. prefix pfx (fst x)) kvs) @ [PushedFinished]
              \<and> sorted_wrt (<) (map fst (filter (\<lambda>x. prefix pfx (fst x)) kvs)))
       \<and> (prefix_incremented pfx = Some e \<longrightarrow> Prefix s c pfx = Scan s c pfx e 0)
       \<and> (prefix_incremented pfx = None \<and> (\<forall>x \<in> set (table (db s)). fst x < e)
          \<longrightarrow> Prefix s c pfx = Scan s c pfx e 0)"
proof (intro conjI impI)
  assume a: "table (db s) = map (stored (compressor s)) kvs \<and> round_trips (compressor s)
            \<and> (\<forall>k. value_fault (eng (db s)) k = None) \<and> (\<forall>n. c n = None)"
  let ?from = "filter (\<lambda>x. pfx \<le> fst x) kvs"
  have fsts: "map fst (table (db s)) = map fst kvs"
    using a by (simp add: stored_def comp_def)
  then have srt': "sorted_wrt (<) (map fst kvs)" using srt by simp
  have "Seek (db s) pfx = filter (\<lambda>x. pfx \<le> fst x) (table (db s))"
    by (rule Seek_sorted [OF srt])
  also have "\<dots> = map (stored (compressor s)) ?from"
    using a by (simp add: filter_map comp_def stored_def)
  finally have seek: "Seek (db s) pfx = map (stored (compressor s)) ?from" .
  have "\<forall>n. ctx (NewIterator c) n = None"
    using a by (simp add: NewIterator_def)
  then have "Prefix_loop s pfx (map (stored (compressor s)) ?from) 0 (NewIterator c) =
      (None, (NewIterator c) \<lparr> pushed := pushed (NewIterator c) @ map (PushedItem \<circ> KV_of)
         (takeWhile (\<lambda>x. prefix pfx (fst x)) ?from) \<rparr>)"
    using a by (intro Prefix_loop_clean) simp_all
  then show "pushed (Prefix s c pfx) =
      map (PushedItem \<circ> KV_of) (filter (\<lambda>x. prefix pfx (fst x)) kvs) @ [PushedFinished]"
    by (simp add: Prefix_def seek prefix_selection [OF srt'] finish_def PushFinished_def
        NewIterator_def)
  show "sorted_wrt (<) (map fst (filter (\<lambda>x. prefix pfx (fst x)) kvs))"
    using srt' by (simp add: sorted_wrt_map sorted_wrt_filter)
next
  assume "prefix_incremented pfx = Some e"
  then have "\<forall>k. pfx \<le> k \<longrightarrow> (k < e) = prefix pfx k"
    using prefix_range by blast
  then show "Prefix s c pfx = Scan s c pfx e 0"
    by (rule Prefix_eq_Scan [OF srt])
next
  assume a: "prefix_incremented pfx = None \<and> (\<forall>x \<in> set (table (db s)). fst x < e)"
  then have "\<forall>x \<in> set (Seek (db s) pfx). (fst x < e) = prefix pfx (fst x)"
    using all_ff_prefix [of pfx] by (auto simp add: Seek_sorted [OF srt])
  then have "Scan_loop s e 0 (Seek (db s) pfx) 0 (NewIterator c) =
      Prefix_loop s pfx (Seek (db s) pfx) 0 (NewIterator c)"
    by (rule Scan_loop_as_Prefix_loop)
  then show "Prefix s c pfx = Scan s c pfx e 0"
    by (simp add: Prefix_def Scan_def)
qed

text \<open>
  With keys ab, ac, b written: \<open>Prefix("a")\<close> yields ab, ac and is
  \<open>Scan("a", "b", 0)\<close>; the prefix 0xFF has no incremented prefix, and
  \<open>Prefix\<close> of it is the scan up to a key above all stored keys.
\<close>

theorem Prefix_yields_prefixed_witness:
  "pushed (Prefix ab_store (\<lambda>n. None) [97]) =
     [PushedItem \<lparr> Key = [97, 98], Value = [5] \<rparr>, PushedItem \<lparr> Key = [97, 99], Value = [6] \<rparr>,
      PushedFinished]
   \<and> Prefix ab_store (\<lambda>n. None) [97] = Scan ab_store (\<lambda>n. None) [97] [98] 0
   \<and> Prefix ab_store (\<lambda>n. None) [255] = Scan ab_store (\<lambda>n. None) [255] [99] 0"
proof -
  have srt: "sorted_wrt (<) (map fst (table (db ab_store)))"
    by (simp add: ab_store_simps)
  note a = Prefix_yields_prefixed [OF srt, of "[([97, 98], [5]), ([97, 99], [6]), ([98], [7])]"
      "\<lambda>n. None" "[97]" "[98]"]
  note b = Prefix_yields_prefixed [OF srt, of "[([97, 98], [5]), ([97, 99], [6]), ([98], [7])]"
      "\<lambda>n. None" "[255]" "[99]"]
  have "pushed (Prefix ab_store (\<lambda>n. None) [97]) =
     [PushedItem \<lparr> Key = [97, 98], Value = [5] \<rparr>, PushedItem \<lparr> Key = [97, 99], Value = [6] \<rparr>,
      PushedFinished]"
    using a [THEN conjunct1]
    by (simp add: ab_store_simps round_trips_tag stored_def KV_of_def bounded_engine_def
        tag_compressor_simps)
  moreover have "Prefix ab_store (\<lambda>n. None) [97] = Scan ab_store (\<lambda>n. None) [97] [98] 0"
    using a [THEN conjunct2, THEN conjunct1] by simp
  moreover have "Prefix ab_store (\<lambda>n. None) [255] = Scan ab_store (\<lambda>n. None) [255] [99] 0"
    using b [THEN conjunct2, THEN conjunct2] by (simp add: ab_store_simps)
  ultimately show ?thesis by blast
qed

subsection \<open>C4: BatchGet\<close>

text \<open>
  C4. Let the store hold the pairs \<open>kvs\<close> with distinct keys, values compressed by a
  compressor that round-trips, and let \<open>ps\<close> be requested pairs, all stored, whose
  keys the engine reads without failure. Then \<open>BatchGet\<close> of the keys of \<open>ps\<close>
  pushes exactly one pair per requested key, in the order requested, and then finished.
  If the request goes on with a key \<open>k\<close> whose read fails with \<open>err\<close>, the iterator
  is the pairs of \<open>ps\<close>, as delivered before, followed by the error \<open>err\<close> as its
  terminal event: the failing key is not skipped and nothing is pushed for the keys
  after it.
\<close>

theorem BatchGet_in_request_order:
  assumes tab: "table (db s) = map (stored (compressor s)) kvs"
      and dst: "distinct (map fst kvs)"
      and rt: "round_trips (compressor s)"
      and req: "set ps \<subseteq> set kvs"
      and gf: "\<forall>p \<in> set ps. get_fault (eng (db s)) (fst p) = None"
      and vf: "\<forall>p \<in> set ps. value_fault (eng (db s)) (fst p) = None"
  shows "pushed (BatchGet s c (map fst ps)) = map (PushedItem \<circ> KV_of) ps @ [PushedFinished]
       \<and> (read_key s k = Inl err \<longrightarrow>
            pushed (BatchGet s c (map fst ps @ k # rest)) =
              map (PushedItem \<circ> KV_of) ps @ [PushedError err])"
proof -
  have reads: "\<forall>p \<in> set ps. read_key s (fst p) = Inr (KV_of p)"
    using read_key_stored [OF tab dst rt] req gf vf by blast
  have "BatchGet_loop s (map fst ps @ []) (NewIterator c, []) =
      BatchGet_loop s []
        ((NewIterator c) \<lparr> pushed := pushed (NewIterator c) @ map (PushedItem \<circ> KV_of) ps \<rparr>,
         [] @ map fst ps)"
    by (rule BatchGet_loop_reads [OF reads])
  then have all: "pushed (BatchGet s c (map fst ps)) =
      map (PushedItem \<circ> KV_of) ps @ [PushedFinished]"
    by (simp add: BatchGet_pushed NewIterator_def)
  have part: "pushed (BatchGet s c (map fst ps @ k # rest)) =
      map (PushedItem \<circ> KV_of) ps @ [PushedError err]" if "read_key s k = Inl err"
  proof -
    have "BatchGet_loop s (map fst ps @ k # rest) (NewIterator c, []) =
        BatchGet_loop s (k # rest)
          ((NewIterator c) \<lparr> pushed := pushed (NewIterator c) @ map (PushedItem \<circ> KV_of) ps \<rparr>,
           [] @ map fst ps)"
      by (rule BatchGet_loop_reads [OF reads])
    then show ?thesis
      using that
      by (simp add: BatchGet_pushed BatchGet_loop_step NewIterator_def del: BatchGet_loop.simps)
  qed
  show ?thesis using all part by blast
qed

text \<open>
  With keys a, b, c, d written: \<open>BatchGet([b, a, c])\<close> yields b, a, c; on the engine
  that fails to read the value of c, \<open>BatchGet([b, a, c, d])\<close> yields b, a and then
  the read error.
\<close>

theorem BatchGet_in_request_order_witness:
  "pushed (BatchGet abcd_store (\<lambda>n. None) [[98], [97], [99]]) =
     [PushedItem \<lparr> Key = [98], Value = [2] \<rparr>, PushedItem \<lparr> Key = [97], Value = [1] \<rparr>,
      PushedItem \<lparr> Key = [99], Value = [3] \<rparr>, PushedFinished]
   \<and> pushed (BatchGet flaky_store (\<lambda>n. None) [[98], [97], [99], [100]]) =
     [PushedItem \<lparr> Key = [98], Value = [2] \<rparr>, PushedItem \<lparr> Key = [97], Value = [1] \<rparr>,
      PushedError (Badger (ErrEngine ''read error''))]"
proof -
  have rk: "read_key flaky_store [99] = Inl (Badger (ErrEngine ''read error''))"
    by (simp add: read_key_def txn_Get_def ValueCopy_def flaky_store_simps)
  have "pushed (BatchGet abcd_store (\<lambda>n. None) (map fst [([98], [2]), ([97], [1]), ([99], [3])])) =
      map (PushedItem \<circ> KV_of) [([98], [2]), ([97], [1]), ([99], [3])] @ [PushedFinished]"
    using BatchGet_in_request_order [where s = abcd_store
        and kvs = "[([97], [1]), ([98], [2]), ([99], [3]), ([100], [4])]"
        and ps = "[([98], [2]), ([97], [1]), ([99], [3])]" and c = "\<lambda>n. None", THEN conjunct1]
    by (simp add: abcd_store_simps round_trips_tag stored_def bounded_engine_def
        tag_compressor_simps)
  moreover have "pushed (BatchGet flaky_store (\<lambda>n. None) (map fst [([98], [2]), ([97], [1])] @ [99] # [[100]])) =
      map (PushedItem \<circ> KV_of) [([98], [2]), ([97], [1])] @ [PushedError (Badger (ErrEngine ''read error''))]"
    using BatchGet_in_request_order [where s = flaky_store
        and kvs = "[([97], [1]), ([98], [2]), ([99], [3]), ([100], [4])]"
        and ps = "[([98], [2]), ([97], [1])]" and k = "[99]"
        and err = "Badger (ErrEngine ''read error'')" and c = "\<lambda>n. None" and rest = "[[100]]",
        THEN conjunct2] rk
    by (simp add: flaky_store_simps round_trips_tag stored_def tag_compressor_simps)
  ultimately show ?thesis by (simp add: KV_of_def)
qed

subsection \<open>C5: Get and NotFound\<close>



subsection \<open>C6: Put when the batch is full\<close>




subsection \<open>C7: cancellation\<close>

text \<open>
  C7. The claim: in \<open>Scan\<close>, \<open>Prefix\<close> and \<open>BatchGet\<close> the producer checks the
  token at least once per item and, once it is triggered, stops with the cancellation
  error. \<open>Scan\<close> and \<open>Prefix\<close> do (\<open>Scan_cancelled\<close>, \<open>Prefix_cancelled\<close>
  above). \<open>BatchGet\<close> never asks the token (\<open>BatchGet_token_unused\<close>): with a token
  that is triggered from the start it pushes the pair of every requested key and ends
  with finished, where \<open>Scan\<close> and \<open>Prefix\<close> on the same store and token push the
  cancellation error and no item.
\<close>

theorem BatchGet_ignores_cancellation:
  "pushed (BatchGet abcd_store (\<lambda>n. Some Canceled) [[97], [98]]) =
     [PushedItem \<lparr> Key = [97], Value = [1] \<rparr>, PushedItem \<lparr> Key = [98], Value = [2] \<rparr>,
      PushedFinished]
   \<and> pushed (Scan abcd_store (\<lambda>n. Some Canceled) [97] [99] 0) = [PushedError (Ctx Canceled)]
   \<and> pushed (Prefix abcd_store (\<lambda>n. Some Canceled) [97]) = [PushedError (Ctx Canceled)]"
  by (simp add: BatchGet_pushed NewIterator_def txn_Get_def ValueCopy_def KeyCopy_def
      PushItem_def abcd_store_simps bounded_engine_def tag_compressor_simps
      Scan_def Prefix_def Seek_def finish_def PushError_def Context_Err_def HasPrefix_def)

subsection \<open>C8: one terminal signal\<close>

text \<open>
  C8. The sequence pushed by the producer of \<open>Scan\<close>, of \<open>Prefix\<close> and of
  \<open>BatchGet\<close> is a (possibly empty) run of items followed by exactly one terminal
  event, an error or finished: every item comes before the terminal event, and nothing,
  item or terminal event, comes after it. This holds for every store, token and argument.
\<close>

theorem one_terminal_signal:
  "(\<exists>items t. pushed (Scan s c start exclusiveEnd limit) = map PushedItem items @ [t] \<and> is_terminal t)
   \<and> (\<exists>items t. pushed (Prefix s c pfx) = map PushedItem items @ [t] \<and> is_terminal t)
   \<and> (\<exists>items t. pushed (BatchGet s c keys) = map PushedItem items @ [t] \<and> is_terminal t)"
proof (intro conjI)
  obtain ys where "pushed (snd (Scan_loop s exclusiveEnd limit (Seek (db s) start) 0 (NewIterator c)))
      = pushed (NewIterator c) @ map PushedItem ys"
    using Scan_loop_items by blast
  then show "\<exists>items t. pushed (Scan s c start exclusiveEnd limit) = map PushedItem items @ [t] \<and> is_terminal t"
    unfolding Scan_def by (intro finish_shape [of _ ys]) (simp add: NewIterator_def)
next
  obtain ys where "pushed (snd (Prefix_loop s pfx (Seek (db s) pfx) 0 (NewIterator c)))
      = pushed (NewIterator c) @ map PushedItem ys"
    using Prefix_loop_items by blast
  then show "\<exists>items t. pushed (Prefix s c pfx) = map PushedItem items @ [t] \<and> is_terminal t"
    unfolding Prefix_def by (intro finish_shape [of _ ys]) (simp add: NewIterator_def)
next
  obtain ys where ys: "pushed (fst (snd (BatchGet_loop s keys (NewIterator c, []))))
      = pushed (NewIterator c) @ map PushedItem ys"
    using BatchGet_loop_items by blast
  obtain err kr seen where r: "BatchGet_loop s keys (NewIterator c, []) = (err, kr, seen)"
    by (cases "BatchGet_loop s keys (NewIterator c, [])") auto
  have "BatchGet s c keys = finish (err, kr)"
    by (simp add: BatchGet_def BatchGet_view_def r)
  moreover have "pushed (snd (err, kr)) = map PushedItem ys"
    using ys r by (simp add: NewIterator_def)
  ultimately show "\<exists>items t. pushed (BatchGet s c keys) = map PushedItem items @ [t] \<and> is_terminal t"
    using finish_shape [of "(err, kr)" ys] by simp
qed

subsection \<open>C9: a staging error other than capacity\<close>

text \<open>
  C9. If staging the entry fails with an error other than \<open>ErrTxnTooBig\<close>, \<open>Put\<close>
  returns nil, and the entry is not staged: the database is untouched and the batch is
  what it was before the call (empty, if the call created it).
\<close>

theorem Put_swallows_staging_error:
  assumes "stage_fault (eng (db s)) (batch_of s) (key, Compress (compressor s) val) = Some err"
      and "err \<noteq> ErrTxnTooBig"
  shows "Put s key val = (None, s \<lparr> writeBatch := Some (batch_of s) \<rparr>)
       \<and> db (snd (Put s key val)) = db s
       \<and> batch_of (snd (Put s key val)) = batch_of s"
  using assms by (simp add: Put_cases batch_of_def)

text \<open>
  On the engine that takes keys of at most 4 bytes, \<open>Put\<close> of a key of 5 bytes
  returns nil and leaves an empty batch.
\<close>

theorem Put_swallows_staging_error_witness:
  "Put small_key_store [1, 2, 3, 4, 5] [9] = (None, small_key_store \<lparr> writeBatch := Some [] \<rparr>)"
  using Put_swallows_staging_error [where s = small_key_store and key = "[1, 2, 3, 4, 5]"
      and val = "[9]" and err = "ErrEngine ''Key exceeded size limit''"]
  by (simp add: small_key_store_def fresh_store_def bounded_engine_def batch_of_def)

subsection \<open>C10: BatchGet with an absent key\<close>

text \<open>
  C10. Let the store hold the pairs \<open>kvs\<close> with distinct keys, values compressed by a
  compressor that round-trips; let the request be the keys of stored pairs \<open>ps\<close>,
  which the engine reads without failure, then a key \<open>k\<close> that is not stored, then
  any keys \<open>rest\<close>. Then \<open>BatchGet\<close> pushes the pairs of \<open>ps\<close> and ends with the
  engine's \<open>ErrKeyNotFound\<close> as its terminal event, which is not
  \<open>store.ErrNotFound\<close> (the error \<open>Get\<close> returns for the same key); no pair is
  pushed for \<open>k\<close>, and the keys looked up are those of \<open>ps\<close> and \<open>k\<close>: none of
  \<open>rest\<close> is read.
\<close>

theorem BatchGet_absent_key:
  assumes tab: "table (db s) = map (stored (compressor s)) kvs"
      and dst: "distinct (map fst kvs)"
      and rt: "round_trips (compressor s)"
      and req: "set ps \<subseteq> set kvs"
      and gf: "\<forall>p \<in> set ps. get_fault (eng (db s)) (fst p) = None"
      and vf: "\<forall>p \<in> set ps. value_fault (eng (db s)) (fst p) = None"
      and absent: "k \<notin> fst ` set kvs"
      and gfk: "get_fault (eng (db s)) k = None"
  shows "pushed (BatchGet s c (map fst ps @ k # rest)) =
           map (PushedItem \<circ> KV_of) ps @ [PushedError (Badger ErrKeyNotFound)]
       \<and> Badger ErrKeyNotFound \<noteq> ErrNotFound
       \<and> snd (snd (BatchGet_view s c (map fst ps @ k # rest))) = map fst ps @ [k]
       \<and> Get s k = Inl ErrNotFound"
proof -
  have reads: "\<forall>p \<in> set ps. read_key s (fst p) = Inr (KV_of p)"
    using read_key_stored [OF tab dst rt] req gf vf by blast
  have rk: "read_key s k = Inl (Badger ErrKeyNotFound)"
    by (rule read_key_absent [OF tab absent gfk])
  note run = BatchGet_loop_fails [OF reads rk, of rest c]
  have "map_of (table (db s)) k = None"
    using absent by (simp add: tab map_of_eq_None_iff stored_def image_image)
  then have "Get s k = Inl ErrNotFound"
    using gfk by (simp add: Get_def txn_Get_def)
  then show ?thesis
    using run by (simp add: BatchGet_pushed BatchGet_view_def del: BatchGet_loop.simps)
qed

text \<open>
  With keys a, b, c, d written: \<open>BatchGet([b, z, c])\<close> yields b and then
  \<open>ErrKeyNotFound\<close>, having looked up b and z only.
\<close>

theorem BatchGet_absent_key_witness:
  "pushed (BatchGet abcd_store (\<lambda>n. None) [[98], [122], [99]]) =
     [PushedItem \<lparr> Key = [98], Value = [2] \<rparr>, PushedError (Badger ErrKeyNotFound)]
   \<and> snd (snd (BatchGet_view abcd_store (\<lambda>n. None) [[98], [122], [99]])) = [[98], [122]]
   \<and> Get abcd_store [122] = Inl ErrNotFound"
  using BatchGet_absent_key [where s = abcd_store
      and kvs = "[([97], [1]), ([98], [2]), ([99], [3]), ([100], [4])]"
      and ps = "[([98], [2])]" and k = "[122]" and c = "\<lambda>n. None" and rest = "[[99]]"]
  by (simp add: abcd_store_simps round_trips_tag stored_def bounded_engine_def
      tag_compressor_simps KV_of_def del: BatchGet_loop.simps)

end